theory Spec2Isabelle
  imports Main
begin

section \<open>Values of the JavaScript program\<close>

text \<open>
  The hook of \<^verbatim>\<open>src/useHttpRequest.js\<close> handles decoded JSON bodies only through
  JavaScript truthiness (\<^verbatim>\<open>shouldCache && result\<close>, \<^verbatim>\<open>options.body || null\<close>).
  A decoded body is a JSON value; of a number only whether it is zero matters here.
\<close>

datatype jsval =
    JNull
  | JBool bool
  | JNum int
  | JStr string
  | JArr "jsval list"
  | JObj "(string \<times> jsval) list"

fun truthy :: "jsval \<Rightarrow> bool" where
  "truthy JNull = False"
| "truthy (JBool b) = b"
| "truthy (JNum n) = (n \<noteq> 0)"
| "truthy (JStr s) = (s \<noteq> [])"
| "truthy (JArr xs) = True"
| "truthy (JObj kvs) = True"

text \<open>
  The \<^verbatim>\<open>url\<close> argument: \<open>None\<close> is an absent URL (\<^verbatim>\<open>undefined\<close>, \<^verbatim>\<open>null\<close>),
  \<open>Some t\<close> a string. \<^verbatim>\<open>!url\<close> holds of the absent and of the empty one.
\<close>

type_synonym url = "string option"

definition falsy_url :: "url \<Rightarrow> bool" where
  "falsy_url u = (case u of None \<Rightarrow> True | Some t \<Rightarrow> t = [])"

text \<open>An exception value: \<^verbatim>\<open>err.name\<close> and \<^verbatim>\<open>err.message\<close>.\<close>

datatype js_error = JsError (err_name: string) (err_message: string)

text \<open>How a promise settles.\<close>

datatype outcome = Resolved jsval | Rejected js_error

text \<open>
  What the transport answers: \<^verbatim>\<open>fetch\<close> rejects, or it resolves to a response with
  \<^verbatim>\<open>response.ok\<close>, \<^verbatim>\<open>response.status\<close> and the result of \<^verbatim>\<open>response.json()\<close>
  (a decode failure or the decoded value).
\<close>

datatype response =
    NetworkError js_error
  | Response bool nat "js_error + jsval"

subsection \<open>Strings\<close>

definition upper_char :: "char \<Rightarrow> char" where
  "upper_char c =
     (case map_of (zip ''abcdefghijklmnopqrstuvwxyz'' ''ABCDEFGHIJKLMNOPQRSTUVWXYZ'') c of
        Some C \<Rightarrow> C
      | None \<Rightarrow> c)"

definition toUpperCase :: "string \<Rightarrow> string" where
  "toUpperCase s = map upper_char s"

definition digit_char :: "nat \<Rightarrow> char" where
  "digit_char d = ''0123456789'' ! (d mod 10)"

text \<open>The decimal text of \<^verbatim>\<open>response.status\<close> inside the template literal.\<close>

fun string_of_nat :: "nat \<Rightarrow> string" where
  "string_of_nat n =
     (if n < 10 then [digit_char n]
      else string_of_nat (n div 10) @ [digit_char (n mod 10)])"

declare string_of_nat.simps [simp del]

section \<open>The JavaScript \<^verbatim>\<open>Map\<close>\<close>

text \<open>
  \<^verbatim>\<open>cache\<close> and \<^verbatim>\<open>inFlightMap\<close> are \<^verbatim>\<open>new Map()\<close>. A \<^verbatim>\<open>Map\<close> iterates in insertion
  order: \<^verbatim>\<open>set\<close> on a present key replaces the value where the key stands, \<^verbatim>\<open>set\<close>
  on a new key appends, \<^verbatim>\<open>delete\<close> removes. The model is the list of entries in that
  order, oldest first.
\<close>

type_synonym ('k, 'v) jsmap = "('k \<times> 'v) list"

definition Map_get :: "'k \<Rightarrow> ('k, 'v) jsmap \<Rightarrow> 'v option" where
  "Map_get k m = map_of m k"

definition Map_has :: "'k \<Rightarrow> ('k, 'v) jsmap \<Rightarrow> bool" where
  "Map_has k m = (Map_get k m \<noteq> None)"

fun Map_set :: "'k \<Rightarrow> 'v \<Rightarrow> ('k, 'v) jsmap \<Rightarrow> ('k, 'v) jsmap" where
  "Map_set k v [] = [(k, v)]"
| "Map_set k v (e # m) = (if fst e = k then (k, v) # m else e # Map_set k v m)"

definition Map_delete :: "'k \<Rightarrow> ('k, 'v) jsmap \<Rightarrow> ('k, 'v) jsmap" where
  "Map_delete k m = filter (\<lambda>e. fst e \<noteq> k) m"

definition Map_size :: "('k, 'v) jsmap \<Rightarrow> nat" where
  "Map_size m = length m"

section \<open>Options\<close>

text \<open>
  The \<^verbatim>\<open>options\<close> object, with the types the README gives for the four keys the hook
  reads (\<^verbatim>\<open>method\<close>: string, \<^verbatim>\<open>headers\<close>: object, \<^verbatim>\<open>body\<close>: object, \<^verbatim>\<open>debounce\<close>:
  number); \<open>None\<close> is a key that is not supplied. \<open>opt_other\<close> holds every other key of
  the object.
\<close>

record options =
  opt_method :: "string option"
  opt_headers :: "(string \<times> string) list option"
  opt_body :: "jsval option"
  opt_debounce :: "int option"
  opt_other :: "(string \<times> jsval) list"

record stable_options =
  so_method :: string
  so_headers :: "(string \<times> string) list"
  so_body :: jsval
  so_debounce :: int

text \<open>
  \<^verbatim>\<open>stableOptions\<close> (lines 26-34): each key read with \<^verbatim>\<open>||\<close> and its default, so a
  falsy value supplied (an empty method, a falsy body, a zero delay) is replaced by the
  default as an absent one is. The fields \<^verbatim>\<open>method\<close>, \<^verbatim>\<open>headers\<close>, \<^verbatim>\<open>body\<close> and
  \<^verbatim>\<open>debounce\<close> of the source carry the prefix \<open>so_\<close> here.
\<close>

definition stableOptions :: "options \<Rightarrow> stable_options" where
  "stableOptions opts =
     \<lparr> so_method = (case opt_method opts of
                      Some m \<Rightarrow> if m \<noteq> [] then m else ''GET''
                    | None \<Rightarrow> ''GET''),
       so_headers = (case opt_headers opts of Some h \<Rightarrow> h | None \<Rightarrow> []),
       so_body = (case opt_body opts of
                    Some b \<Rightarrow> if truthy b then b else JNull
                  | None \<Rightarrow> JNull),
       so_debounce = (case opt_debounce opts of
                        Some d \<Rightarrow> if d \<noteq> 0 then d else 0
                      | None \<Rightarrow> 0) \<rparr>"

section \<open>State\<close>

text \<open>
  One mounted instance of the hook: its arguments, its three \<^verbatim>\<open>useState\<close> cells and its
  three \<^verbatim>\<open>useRef\<close> cells. \<^verbatim>\<open>null\<close> is \<open>JNull\<close> for \<open>data\<close> and \<open>None\<close> for the others;
  a controller and a timer are named by a number.
\<close>

record hook =
  url :: url
  options :: options
  data :: jsval
  error :: "string option"
  isLoading :: bool
  controller :: "nat option"
  timeoutRef :: "nat option"
  didSetInFlight :: bool

text \<open>
  What the closure \<^verbatim>\<open>runFetch\<close> captures when \<^verbatim>\<open>fetchData\<close> builds it: the arguments
  of \<^verbatim>\<open>fetch\<close>, and the hook whose setters it calls. \<^verbatim>\<open>shouldCache\<close> is
  \<open>req_method = ''GET''\<close>. \<open>req_body = Some b\<close> stands for the text
  \<^verbatim>\<open>JSON.stringify(b)\<close>, which is not empty for any JSON value.
\<close>

record request =
  req_url :: url
  req_method :: string
  req_headers :: "(string \<times> string) list"
  req_body :: "jsval option"
  req_signal :: nat
  req_owner :: nat

text \<open>
  One invocation of \<^verbatim>\<open>fetch\<close> and the promise \<^verbatim>\<open>fetchPromise\<close> built on it: how it
  settled (\<open>None\<close> while pending) and the hooks that attached reactions to it through
  \<^verbatim>\<open>inFlightMap.get(url)\<close>, in the order they attached.
\<close>

record call =
  request :: request
  settled :: "outcome option"
  attached :: "nat list"

text \<open>
  A pending \<^verbatim>\<open>setTimeout(runFetch, delay)\<close>: the time of the call, the delay handed to
  it, and the closure.
\<close>

record timer =
  set_at :: nat
  delay :: int
  callback :: request

text \<open>
  The delay the platform applies. \<^verbatim>\<open>setTimeout\<close> takes its delay as a 32-bit signed
  integer (the \<^verbatim>\<open>long\<close> of the HTML timer interface): the value is reduced modulo
  \<open>2^32\<close> into the signed range, and a negative result counts as 0. So a delay below
  \<open>2^31\<close> milliseconds is applied as it is, and \<open>2^31\<close> milliseconds comes due at once.
\<close>

definition timeout_ms :: "int \<Rightarrow> nat" where
  "timeout_ms d =
     (let w = d mod 4294967296;
          t = (if 2147483648 \<le> w then w - 4294967296 else w)
      in if t < 0 then 0 else nat t)"

text \<open>
  The module's state: the two module-level maps, the mounted hooks, every \<^verbatim>\<open>fetch\<close>
  invocation so far (a call is named by its index), the timers \<^verbatim>\<open>setTimeout\<close> holds, the
  controllers that were aborted, the next fresh number for a controller or a timer, and
  the clock in milliseconds.
\<close>

record state =
  cache :: "(url, jsval) jsmap"
  inFlightMap :: "(url, nat) jsmap"
  hooks :: "nat \<Rightarrow> hook option"
  calls :: "call list"
  timers :: "nat \<Rightarrow> timer option"
  aborted :: "nat set"
  next_id :: nat
  now :: nat

definition MAX_CACHE_SIZE :: nat where
  "MAX_CACHE_SIZE = 100"

definition init :: state where
  "init = \<lparr> cache = [], inFlightMap = [], hooks = (\<lambda>h. None), calls = [],
            timers = (\<lambda>t. None), aborted = {}, next_id = 0, now = 0 \<rparr>"

definition initial_hook :: "url \<Rightarrow> options \<Rightarrow> hook" where
  "initial_hook u opts =
     \<lparr> url = u, options = opts, data = JNull, error = None, isLoading = True,
       controller = None, timeoutRef = None, didSetInFlight = False \<rparr>"

subsection \<open>Setters\<close>

definition update_hook :: "nat \<Rightarrow> (hook \<Rightarrow> hook) \<Rightarrow> state \<Rightarrow> state" where
  "update_hook h f s = s\<lparr>hooks := (hooks s)(h := map_option f (hooks s h))\<rparr>"

definition setData :: "nat \<Rightarrow> jsval \<Rightarrow> state \<Rightarrow> state" where
  "setData h v = update_hook h (\<lambda>k. k\<lparr>data := v\<rparr>)"

definition setError :: "nat \<Rightarrow> string option \<Rightarrow> state \<Rightarrow> state" where
  "setError h e = update_hook h (\<lambda>k. k\<lparr>error := e\<rparr>)"

definition setIsLoading :: "nat \<Rightarrow> bool \<Rightarrow> state \<Rightarrow> state" where
  "setIsLoading h b = update_hook h (\<lambda>k. k\<lparr>isLoading := b\<rparr>)"

section \<open>The exported functions\<close>

definition clearCache :: "state \<Rightarrow> state" where
  "clearCache s = s\<lparr>cache := [], inFlightMap := []\<rparr>"

definition invalidateURL :: "url \<Rightarrow> state \<Rightarrow> state" where
  "invalidateURL u s =
     s\<lparr>cache := Map_delete u (cache s), inFlightMap := Map_delete u (inFlightMap s)\<rparr>"

section \<open>The promise chain of \<^verbatim>\<open>runFetch\<close>\<close>

text \<open>
  Lines 88-93: a response that is not ok throws \<^verbatim>\<open>new Error(...)\<close>, whose name is
  \<^verbatim>\<open>Error\<close>; otherwise the chain continues with \<^verbatim>\<open>response.json()\<close>.
\<close>

definition fetch_outcome :: "response \<Rightarrow> outcome" where
  "fetch_outcome r =
     (case r of
        NetworkError e \<Rightarrow> Rejected e
      | Response ok status_code decoded \<Rightarrow>
          if \<not> ok then
            Rejected (JsError ''Error'' (''HTTP error! status: '' @ string_of_nat status_code))
          else (case decoded of Inl e \<Rightarrow> Rejected e | Inr v \<Rightarrow> Resolved v))"

definition abort_error :: js_error where
  "abort_error = JsError ''AbortError'' ''The operation was aborted.''"

text \<open>A call whose signal was aborted rejects with an \<^verbatim>\<open>AbortError\<close>.\<close>

definition settle_outcome :: "state \<Rightarrow> request \<Rightarrow> response \<Rightarrow> outcome" where
  "settle_outcome s rq r =
     (if req_signal rq \<in> aborted s then Rejected abort_error else fetch_outcome r)"

text \<open>
  Lines 94-103: the write to the cache. \<^verbatim>\<open>cache.keys().next().value\<close> is the first key
  in insertion order, and \<^verbatim>\<open>undefined\<close> on an empty map, where the \<^verbatim>\<open>delete\<close> does
  nothing.
\<close>

definition cache_commit :: "url \<Rightarrow> jsval \<Rightarrow> (url, jsval) jsmap \<Rightarrow> (url, jsval) jsmap" where
  "cache_commit u v c =
     Map_set u v
       (if MAX_CACHE_SIZE \<le> Map_size c
        then (case c of [] \<Rightarrow> c | e # rest \<Rightarrow> Map_delete (fst e) c)
        else c)"

definition chain_then :: "request \<Rightarrow> outcome \<Rightarrow> state \<Rightarrow> state" where
  "chain_then rq out s =
     (case out of
        Resolved v \<Rightarrow>
          if req_method rq = ''GET'' \<and> truthy v
          then s\<lparr>cache := cache_commit (req_url rq) v (cache s)\<rparr>
          else s
      | Rejected e \<Rightarrow> s)"

text \<open>Lines 110-120: what the originator does after \<^verbatim>\<open>await fetchPromise\<close>.\<close>

definition originator_reaction :: "request \<Rightarrow> outcome \<Rightarrow> state \<Rightarrow> state" where
  "originator_reaction rq out s =
     (let s1 = (case out of
                  Resolved v \<Rightarrow> setData (req_owner rq) v s
                | Rejected e \<Rightarrow>
                    if err_name e \<noteq> ''AbortError''
                    then setError (req_owner rq) (Some (err_message e)) s
                    else s);
          s2 = setIsLoading (req_owner rq) False s1
      in if req_method rq = ''GET''
         then s2\<lparr>inFlightMap := Map_delete (req_url rq) (inFlightMap s2)\<rparr>
         else s2)"

text \<open>Lines 62-71: the reactions of a hook that attached to the pending promise.\<close>

definition attached_reaction :: "outcome \<Rightarrow> nat \<Rightarrow> state \<Rightarrow> state" where
  "attached_reaction out h s =
     (let s1 = (case out of
                  Resolved v \<Rightarrow> setError h None (setData h v s)
                | Rejected e \<Rightarrow>
                    if err_name e \<noteq> ''AbortError''
                    then setError h (Some (err_message e)) s
                    else s)
      in setIsLoading h False s1)"

text \<open>
  The network answers call \<open>p\<close>. The chain's cache write comes first, then the
  originator's continuation (registered first, by the \<^verbatim>\<open>await\<close> inside \<^verbatim>\<open>runFetch\<close>),
  then the attached hooks in their order. All of it runs in one turn of the event loop,
  so it is one step here. A call that is unknown or already settled is left alone.
\<close>

definition settle :: "nat \<Rightarrow> response \<Rightarrow> state \<Rightarrow> state" where
  "settle p r s =
     (if p < length (calls s) then
        (let c = calls s ! p in
         case settled c of
           Some out \<Rightarrow> s
         | None \<Rightarrow>
            (let rq = request c;
                 out = settle_outcome s rq r;
                 s1 = chain_then rq out s;
                 s2 = s1\<lparr>calls := (calls s1)[p := c\<lparr>settled := Some out\<rparr>]\<rparr>;
                 s3 = originator_reaction rq out s2
             in fold (attached_reaction out) (attached c) s3))
      else s)"

section \<open>\<^verbatim>\<open>fetchData\<close>\<close>

text \<open>
  Lines 78-108, up to the \<^verbatim>\<open>await\<close>: the setters, the \<^verbatim>\<open>fetch\<close> invocation (a new
  pending call at the end of \<open>calls\<close>), and for a GET the registration.
\<close>

definition runFetch :: "request \<Rightarrow> state \<Rightarrow> state" where
  "runFetch rq s =
     (let s1 = setError (req_owner rq) None (setIsLoading (req_owner rq) True s);
          p = length (calls s1);
          s2 = s1\<lparr>calls := calls s1 @ [\<lparr>request = rq, settled = None, attached = []\<rparr>]\<rparr>
      in if req_method rq = ''GET''
         then update_hook (req_owner rq) (\<lambda>k. k\<lparr>didSetInFlight := True\<rparr>)
                (s2\<lparr>inFlightMap := Map_set (req_url rq) p (inFlightMap s2)\<rparr>)
         else s2)"

text \<open>
  Lines 60-73. The reactions of a promise that has already settled run at once.
\<close>

definition attach :: "nat \<Rightarrow> nat \<Rightarrow> state \<Rightarrow> state" where
  "attach h p s =
     (let s1 = setIsLoading h True s in
      if p < length (calls s1) then
        (let c = calls s1 ! p in
         case settled c of
           None \<Rightarrow> s1\<lparr>calls := (calls s1)[p := c\<lparr>attached := attached c @ [h]\<rparr>]\<rparr>
         | Some out \<Rightarrow> attached_reaction out h s1)
      else s1)"

text \<open>
  \<^verbatim>\<open>if (timeoutRef.current) clearTimeout(timeoutRef.current)\<close>: the timer the ref names,
  if it names one, is taken from the pending timers.
\<close>

definition clearTimeout :: "nat option \<Rightarrow> state \<Rightarrow> state" where
  "clearTimeout r s = (case r of None \<Rightarrow> s | Some t \<Rightarrow> s\<lparr>timers := (timers s)(t := None)\<rparr>)"

text \<open>Lines 75-76 and 123-129: the new controller, the timer, the start.\<close>

definition originate :: "nat \<Rightarrow> url \<Rightarrow> string \<Rightarrow> (string \<times> string) list \<Rightarrow> jsval option
    \<Rightarrow> int \<Rightarrow> state \<Rightarrow> state" where
  "originate h u m hs b d s =
     (let cid = next_id s;
          s1 = update_hook h (\<lambda>k. k\<lparr>controller := Some cid\<rparr>) (s\<lparr>next_id := cid + 1\<rparr>);
          rq = \<lparr> req_url = u, req_method = m, req_headers = hs, req_body = b,
                 req_signal = cid, req_owner = h \<rparr>;
          s2 = (case hooks s1 h of
                  None \<Rightarrow> s1
                | Some k \<Rightarrow> clearTimeout (timeoutRef k) s1)
      in if 0 < d then
           (let tid = next_id s2;
                s3 = s2\<lparr>next_id := tid + 1,
                        timers := (timers s2)(tid := Some \<lparr>set_at = now s2, delay = d, callback = rq\<rparr>)\<rparr>
            in update_hook h (\<lambda>k. k\<lparr>timeoutRef := Some tid\<rparr>) s3)
         else runFetch rq s2)"

text \<open>
  Lines 39-48: the method in upper case, the body of a request that is not a GET, and
  the default content type of a request with a body.
\<close>

definition normalize_request :: "stable_options \<Rightarrow> string \<times> (string \<times> string) list \<times> jsval option" where
  "normalize_request so =
     (let m = toUpperCase (so_method so);
          b = (if m \<noteq> ''GET'' \<and> truthy (so_body so) then Some (so_body so) else None);
          hs = (if b \<noteq> None \<and>
                   (case Map_get ''Content-Type'' (so_headers so) of
                      None \<Rightarrow> True
                    | Some ct \<Rightarrow> ct = [])
                then Map_set ''Content-Type'' ''application/json'' (so_headers so)
                else so_headers so)
      in (m, hs, b))"

text \<open>
  Lines 36-130. \<^verbatim>\<open>cache.has(url)\<close> followed by \<^verbatim>\<open>cache.get(url)\<close> is one lookup here,
  and so is \<^verbatim>\<open>inFlightMap.has(url)\<close> followed by \<^verbatim>\<open>inFlightMap.get(url)\<close>; neither map
  is looked at unless \<^verbatim>\<open>shouldCache\<close> holds.
\<close>

definition fetchData :: "nat \<Rightarrow> state \<Rightarrow> state" where
  "fetchData h s =
     (case hooks s h of
        None \<Rightarrow> s
      | Some k \<Rightarrow>
         if falsy_url (url k) then s
         else
          (let so = stableOptions (options k);
               (m, hs, b) = normalize_request so;
               shouldCache = (m = ''GET'')
           in case (if shouldCache then Map_get (url k) (cache s) else None) of
                Some v \<Rightarrow> setError h None (setIsLoading h False (setData h v s))
              | None \<Rightarrow>
                 (case (if shouldCache then Map_get (url k) (inFlightMap s) else None) of
                    Some p \<Rightarrow> attach h p s
                  | None \<Rightarrow> originate h (url k) m hs b (so_debounce so) s)))"

section \<open>The effect and its cleanup\<close>

text \<open>
  Lines 134-139: the cleanup the effect returns, with the \<^verbatim>\<open>url\<close> of the render that
  ran the effect.
\<close>

definition cleanup :: "nat \<Rightarrow> state \<Rightarrow> state" where
  "cleanup h s =
     (case hooks s h of
        None \<Rightarrow> s
      | Some k \<Rightarrow>
         (let s1 = (case controller k of
                      None \<Rightarrow> s
                    | Some c \<Rightarrow> s\<lparr>aborted := insert c (aborted s)\<rparr>);
              s2 = clearTimeout (timeoutRef k) s1
          in if didSetInFlight k
             then s2\<lparr>inFlightMap := Map_delete (url k) (inFlightMap s2)\<rparr>
             else s2))"

section \<open>Events\<close>

text \<open>
  What can happen to the module, one event at a time (the program runs on one thread):
  a component mounts the hook (first render, then the effect), its arguments change
  (the cleanup of the old effect, then the new effect), it unmounts (the cleanup), it
  calls \<^verbatim>\<open>refetch\<close>, a timer comes due, time passes, the network answers a call, or one
  of the two exported functions is called.
\<close>

datatype event =
    Mount nat url options
  | Update nat url options
  | Unmount nat
  | Refetch nat
  | TimerFire nat
  | Advance nat
  | Settle nat response
  | ClearCache
  | InvalidateURL url

definition timer_fire :: "nat \<Rightarrow> state \<Rightarrow> state" where
  "timer_fire t s =
     (case timers s t of
        None \<Rightarrow> s
      | Some tm \<Rightarrow>
          if set_at tm + timeout_ms (delay tm) \<le> now s
          then runFetch (callback tm) (s\<lparr>timers := (timers s)(t := None)\<rparr>)
          else s)"

fun step :: "event \<Rightarrow> state \<Rightarrow> state" where
  "step (Mount h u opts) s =
     (case hooks s h of
        None \<Rightarrow> fetchData h (s\<lparr>hooks := (hooks s)(h := Some (initial_hook u opts))\<rparr>)
      | Some k \<Rightarrow> s)"
| "step (Update h u opts) s =
     (case hooks s h of
        None \<Rightarrow> s
      | Some k \<Rightarrow>
          fetchData h (update_hook h (\<lambda>k. k\<lparr>url := u, options := opts\<rparr>) (cleanup h s)))"
| "step (Unmount h) s = cleanup h s"
| "step (Refetch h) s = fetchData h s"
| "step (TimerFire t) s = timer_fire t s"
| "step (Advance dt) s = s\<lparr>now := now s + dt\<rparr>"
| "step (Settle p r) s = settle p r s"
| "step ClearCache s = clearCache s"
| "step (InvalidateURL u) s = invalidateURL u s"

fun run :: "event list \<Rightarrow> state \<Rightarrow> state" where
  "run [] s = s"
| "run (e # es) s = run es (step e s)"

section \<open>Predicates and example values used by the properties\<close>

text \<open>Every field of the state but the hooks.\<close>

definition frame :: "state \<Rightarrow>
    (url, jsval) jsmap \<times> (url, nat) jsmap \<times> call list \<times> (nat \<Rightarrow> timer option) \<times> nat set \<times> nat \<times> nat" where
  "frame s = (cache s, inFlightMap s, calls s, timers s, aborted s, next_id s, now s)"

text \<open>The cache is within its bound and, as a \<^verbatim>\<open>Map\<close>, holds each key once.\<close>

definition cache_ok :: "state \<Rightarrow> bool" where
  "cache_ok s = (Map_size (cache s) \<le> MAX_CACHE_SIZE \<and> distinct (map fst (cache s)))"

text \<open>
  An entry of the registry names a call that exists, is pending, and is the GET call
  for the entry's URL.
\<close>

definition entry_ok :: "call list \<Rightarrow> url \<times> nat \<Rightarrow> bool" where
  "entry_ok cs e =
     (snd e < length cs \<and> settled (cs ! snd e) = None
      \<and> req_url (request (cs ! snd e)) = fst e \<and> req_method (request (cs ! snd e)) = ''GET'')"

definition registry_ok :: "state \<Rightarrow> bool" where
  "registry_ok s = (\<forall>e \<in> set (inFlightMap s). entry_ok (calls s) e)"

text \<open>
  What the reactions of lines 110-120 and of lines 62-71 do to the hook they belong to.
\<close>



definition originator_effect :: "outcome \<Rightarrow> hook \<Rightarrow> hook" where
  "originator_effect out k =
     (case out of
        Resolved v \<Rightarrow> k\<lparr>data := v, isLoading := False\<rparr>
      | Rejected e \<Rightarrow>
          if err_name e \<noteq> ''AbortError''
          then k\<lparr>error := Some (err_message e), isLoading := False\<rparr>
          else k\<lparr>isLoading := False\<rparr>)"

definition attached_effect :: "outcome \<Rightarrow> hook \<Rightarrow> hook" where
  "attached_effect out k =
     (case out of
        Resolved v \<Rightarrow> k\<lparr>data := v, error := None, isLoading := False\<rparr>
      | Rejected e \<Rightarrow>
          if err_name e \<noteq> ''AbortError''
          then k\<lparr>error := Some (err_message e), isLoading := False\<rparr>
          else k\<lparr>isLoading := False\<rparr>)"




definition exclusive :: "state \<Rightarrow> bool" where
  "exclusive s = (\<forall>u. \<not> (Map_has u (cache s) \<and> Map_has u (inFlightMap s)))"

text \<open>
  No call and no timer belongs to hook \<open>h\<close> or has it attached; an event that does not
  give hook \<open>h\<close> a URL that is not falsy; and hook \<open>h\<close>, with a falsy URL, in the
  state it was mounted in.
\<close>

definition unreferenced :: "nat \<Rightarrow> state \<Rightarrow> bool" where
  "unreferenced h s =
     ((\<forall>c \<in> set (calls s). req_owner (request c) \<noteq> h \<and> h \<notin> set (attached c))
      \<and> (\<forall>t tm. timers s t = Some tm \<longrightarrow> req_owner (callback tm) \<noteq> h))"

definition keeps_url_falsy :: "nat \<Rightarrow> event \<Rightarrow> bool" where
  "keeps_url_falsy h e =
     (case e of Update h' u opts \<Rightarrow> h' = h \<longrightarrow> falsy_url u | _ \<Rightarrow> True)"

definition still_initial :: "nat \<Rightarrow> state \<Rightarrow> bool" where
  "still_initial h s =
     ((\<exists>k. hooks s h = Some k \<and> falsy_url (url k)
           \<and> data k = JNull \<and> error k = None \<and> isLoading k)
      \<and> unreferenced h s)"

text \<open>Example values: options, caches, responses and event sequences.\<close>

definition no_options :: options where
  "no_options =
     \<lparr> opt_method = None, opt_headers = None, opt_body = None, opt_debounce = None,
       opt_other = [] \<rparr>"

definition full_cache :: "(url, jsval) jsmap" where
  "full_cache = map (\<lambda>n. (Some (''/item/'' @ replicate n CHR ''x''), JBool True)) [0..<100]"


definition debounced_options :: options where
  "debounced_options = no_options\<lparr>opt_debounce := Some 100\<rparr>"

definition two_debounced_mounts :: "event list" where
  "two_debounced_mounts =
     [Mount 0 (Some ''/profile'') debounced_options,
      Mount 1 (Some ''/profile'') debounced_options,
      Advance 100, TimerFire 1, TimerFire 3]"

definition failed_to_fetch :: response where
  "failed_to_fetch = NetworkError (JsError ''TypeError'' ''Failed to fetch'')"

definition two_idle_hooks :: "event list" where
  "two_idle_hooks =
     [Mount 0 (Some ''/profile'') no_options, Settle 0 failed_to_fetch,
      Mount 1 (Some ''/profile'') no_options, Settle 1 failed_to_fetch]"

definition cached_then_debounced :: "event list" where
  "cached_then_debounced =
     [Mount 0 (Some ''/a'') no_options,
      Settle 0 (Response True 200 (Inr (JNum 7))),
      Mount 1 (Some ''/a'') (no_options\<lparr>opt_debounce := Some 500\<rparr>)]"

definition attached_debounced :: "event list" where
  "attached_debounced =
     [Mount 0 (Some ''/a'') no_options,
      Mount 1 (Some ''/a'') (no_options\<lparr>opt_debounce := Some 500\<rparr>)]"

definition foreign_entry_deleted :: "event list" where
  "foreign_entry_deleted =
     [Mount 0 (Some ''/a'') no_options, Settle 0 failed_to_fetch,
      Mount 1 (Some ''/a'') no_options, Unmount 0]"


definition post_options :: options where
  "post_options = no_options\<lparr>opt_method := Some ''post'', opt_body := Some (JObj [(''name'', JStr ''Ada'')])\<rparr>"

text \<open>
  A run that fills the cache: component \<open>i\<close> mounts the hook for its own URL and the
  GET succeeds, for \<open>i\<close> from 0. \<open>filled n\<close> is what the state is after \<open>n\<close> of them.
\<close>

definition item_url :: "nat \<Rightarrow> url" where
  "item_url n = Some (''/item/'' @ replicate n CHR ''x'')"

definition item_cache :: "nat \<Rightarrow> (url, jsval) jsmap" where
  "item_cache n = map (\<lambda>i. (item_url i, JBool True)) [0..<n]"

definition item_response :: response where
  "item_response = Response True 200 (Inr (JBool True))"

fun fill_events :: "nat \<Rightarrow> event list" where
  "fill_events 0 = []"
| "fill_events (Suc n) = fill_events n @ [Mount n (item_url n) no_options, Settle n item_response]"

definition filled :: "nat \<Rightarrow> state \<Rightarrow> bool" where
  "filled n s =
     (cache s = item_cache n \<and> inFlightMap s = [] \<and> length (calls s) = n
      \<and> aborted s = {} \<and> (\<forall>i. n \<le> i \<longrightarrow> hooks s i = None))"

section \<open>Lemmas: the \<^verbatim>\<open>Map\<close> operations, frames, invariants\<close>


lemma Map_get_set: "Map_get k' (Map_set k v m) = (if k' = k then Some v else Map_get k' m)"
  by (induction m) (auto simp: Map_get_def)

lemma Map_get_delete: "Map_get k' (Map_delete k m) = (if k' = k then None else Map_get k' m)"
  by (induction m) (auto simp: Map_get_def Map_delete_def)

lemma length_Map_set: "length (Map_set k v m) \<le> Suc (length m)"
  by (induction m) auto

lemma length_Map_delete: "length (Map_delete k m) \<le> length m"
  by (simp add: Map_delete_def)

lemma keys_Map_set: "set (map fst (Map_set k v m)) = insert k (set (map fst m))"
  by (induction m) auto

lemma distinct_Map_set: "distinct (map fst m) \<Longrightarrow> distinct (map fst (Map_set k v m))"
  by (induction m) (auto simp: keys_Map_set simp del: set_map)

lemma distinct_Map_delete: "distinct (map fst m) \<Longrightarrow> distinct (map fst (Map_delete k m))"
  by (simp add: Map_delete_def distinct_map_filter)

lemma Map_delete_absent: "k \<notin> fst ` set m \<Longrightarrow> Map_delete k m = m"
  by (induction m) (auto simp: Map_delete_def)

lemma Map_delete_first: "distinct (map fst (e # m)) \<Longrightarrow> Map_delete (fst e) (e # m) = m"
  using Map_delete_absent [of "fst e" m] by (simp add: Map_delete_def)

lemma cache_commit_length: "length c \<le> MAX_CACHE_SIZE \<Longrightarrow> length (cache_commit u v c) \<le> MAX_CACHE_SIZE"
proof (cases "MAX_CACHE_SIZE \<le> length c")
  case False
  then show ?thesis
    using length_Map_set [of u v c] by (simp add: cache_commit_def Map_size_def)
next
  case True
  assume le: "length c \<le> MAX_CACHE_SIZE"
  from True have "c \<noteq> []" by (auto simp: MAX_CACHE_SIZE_def)
  then obtain e m where c: "c = e # m" by (cases c) auto
  have "length (Map_delete (fst e) c) \<le> length m"
    using length_Map_delete [of "fst e" m] by (simp add: c Map_delete_def)
  then have "length (Map_set u v (Map_delete (fst e) c)) \<le> Suc (length m)"
    using length_Map_set [of u v "Map_delete (fst e) c"] by linarith
  with True le show ?thesis
    by (simp add: cache_commit_def Map_size_def c)
qed

lemma cache_commit_distinct: "distinct (map fst c) \<Longrightarrow> distinct (map fst (cache_commit u v c))"
  by (auto simp: cache_commit_def distinct_Map_set distinct_Map_delete split: list.splits)

lemma cache_commit_full:
  "distinct (map fst c) \<Longrightarrow> MAX_CACHE_SIZE \<le> Map_size c \<Longrightarrow> cache_commit u v c = Map_set u v (tl c)"
  by (cases c) (auto simp: cache_commit_def Map_delete_first Map_size_def MAX_CACHE_SIZE_def simp del: distinct.simps)

lemma cache_commit_room:
  "Map_size c < MAX_CACHE_SIZE \<Longrightarrow> cache_commit u v c = Map_set u v c"
  by (simp add: cache_commit_def)

lemma update_hook_fields [simp]:
  "cache (update_hook h f s) = cache s"
  "inFlightMap (update_hook h f s) = inFlightMap s"
  "calls (update_hook h f s) = calls s"
  "timers (update_hook h f s) = timers s"
  "aborted (update_hook h f s) = aborted s"
  "next_id (update_hook h f s) = next_id s"
  "now (update_hook h f s) = now s"
  "hooks (update_hook h f s) = (hooks s)(h := map_option f (hooks s h))"
  by (simp_all add: update_hook_def)

lemmas setter_defs = setData_def setError_def setIsLoading_def

lemma cache_attached_reaction [simp]: "cache (attached_reaction out h s) = cache s"
  by (simp add: attached_reaction_def setter_defs Let_def split: outcome.splits)

lemma cache_fold_attached [simp]: "cache (fold (attached_reaction out) hs s) = cache s"
  by (induction hs arbitrary: s) simp_all

lemma cache_originator_reaction [simp]: "cache (originator_reaction rq out s) = cache s"
  by (simp add: originator_reaction_def setter_defs Let_def split: outcome.splits)

lemma cache_runFetch [simp]: "cache (runFetch rq s) = cache s"
  by (simp add: runFetch_def setter_defs Let_def)

lemma cache_attach [simp]: "cache (attach h p s) = cache s"
  by (simp add: attach_def setter_defs Let_def split: option.splits)

lemma cache_originate [simp]: "cache (originate h u m hs b d s) = cache s"
  by (simp add: originate_def clearTimeout_def Let_def split: option.splits)

lemma cache_fetchData [simp]: "cache (fetchData h s) = cache s"
  by (simp add: fetchData_def setter_defs Let_def split: option.splits prod.splits)

lemma cache_cleanup [simp]: "cache (cleanup h s) = cache s"
  by (simp add: cleanup_def clearTimeout_def Let_def split: option.splits)

lemma cache_timer_fire [simp]: "cache (timer_fire t s) = cache s"
  by (simp add: timer_fire_def split: option.splits)

lemma cache_settle:
  "cache (settle p r s) = cache s \<or> (\<exists>u v. cache (settle p r s) = cache_commit u v (cache s))"
  by (auto simp: settle_def chain_then_def Let_def split: option.splits outcome.splits)

lemma cache_ok_step: "cache_ok s \<Longrightarrow> cache_ok (step e s)"
proof (cases e)
  case (Settle p r)
  assume "cache_ok s"
  then show ?thesis
    using cache_settle [of p r s]
    by (auto simp: Settle cache_ok_def Map_size_def cache_commit_length cache_commit_distinct)
next
  case (InvalidateURL u)
  assume "cache_ok s"
  then show ?thesis
    using length_Map_delete [of u "cache s"]
    by (auto simp: InvalidateURL cache_ok_def Map_size_def invalidateURL_def distinct_Map_delete)
qed (auto simp: cache_ok_def clearCache_def Map_size_def split: option.splits)

lemma run_invariant:
  assumes "P s" and "\<And>e t. P t \<Longrightarrow> P (step e t)"
  shows "P (run es s)"
  using assms(1) by (induction es arbitrary: s) (simp_all add: assms(2))

lemma cache_ok_run: "cache_ok (run es init)"
  by (rule run_invariant) (simp_all add: cache_ok_step, simp add: cache_ok_def init_def Map_size_def)



lemma frame_update_hook [simp]: "frame (update_hook h f s) = frame s"
  by (simp add: frame_def)

lemma frame_attached_reaction [simp]: "frame (attached_reaction out h s) = frame s"
  by (simp add: attached_reaction_def setter_defs Let_def split: outcome.splits)

lemma frame_fold_attached [simp]: "frame (fold (attached_reaction out) hs s) = frame s"
  by (induction hs arbitrary: s) simp_all

lemma frame_fields:
  assumes "frame t = frame s"
  shows "cache t = cache s" "inFlightMap t = inFlightMap s" "calls t = calls s"
    "timers t = timers s" "aborted t = aborted s" "next_id t = next_id s" "now t = now s"
  using assms by (simp_all add: frame_def)

lemmas attached_reaction_fields [simp] = frame_fields [OF frame_attached_reaction]
lemmas fold_attached_fields [simp] = frame_fields [OF frame_fold_attached]

lemma set_Map_set: "set (Map_set k v m) \<subseteq> insert (k, v) (set m)"
  by (induction m) auto

lemma set_Map_delete: "set (Map_delete k m) = {e \<in> set m. fst e \<noteq> k}"
  by (auto simp: Map_delete_def)

lemma Map_get_in_set: "Map_get k m = Some v \<Longrightarrow> (k, v) \<in> set m"
  by (simp add: Map_get_def map_of_SomeD)

lemma entry_ok_append: "entry_ok cs e \<Longrightarrow> entry_ok (cs @ [c]) e"
  by (simp add: entry_ok_def nth_append)

lemma entry_ok_attach: "entry_ok cs e \<Longrightarrow> entry_ok (cs[p := (cs ! p)\<lparr>attached := hs\<rparr>]) e"
  by (cases "p = snd e") (auto simp: entry_ok_def)

lemma entry_ok_other: "entry_ok cs e \<Longrightarrow> snd e \<noteq> p \<Longrightarrow> entry_ok (cs[p := c]) e"
  by (simp add: entry_ok_def)

lemma calls_runFetch:
  "calls (runFetch rq s) = calls s @ [\<lparr>request = rq, settled = None, attached = []\<rparr>]"
  by (simp add: runFetch_def setter_defs Let_def)

lemma inFlightMap_runFetch:
  "inFlightMap (runFetch rq s) =
     (if req_method rq = ''GET'' then Map_set (req_url rq) (length (calls s)) (inFlightMap s)
      else inFlightMap s)"
  by (simp add: runFetch_def setter_defs Let_def)

lemma entry_ok_new:
  "req_method rq = ''GET'' \<Longrightarrow>
   entry_ok (cs @ [\<lparr>request = rq, settled = None, attached = []\<rparr>]) (req_url rq, length cs)"
  by (simp add: entry_ok_def)

lemma registry_ok_runFetch: "registry_ok s \<Longrightarrow> registry_ok (runFetch rq s)"
proof -
  assume ok: "registry_ok s"
  let ?c = "\<lparr>request = rq, settled = None, attached = []\<rparr>"
  have old: "entry_ok (calls s @ [?c]) e" if "e \<in> set (inFlightMap s)" for e
    using ok that by (simp add: registry_ok_def entry_ok_append)
  show ?thesis
  proof (cases "req_method rq = ''GET''")
    case False
    then show ?thesis
      using old by (simp add: registry_ok_def calls_runFetch inFlightMap_runFetch)
  next
    case True
    have "entry_ok (calls s @ [?c]) e"
      if "e \<in> set (Map_set (req_url rq) (length (calls s)) (inFlightMap s))" for e
    proof -
      from that set_Map_set [of "req_url rq" "length (calls s)" "inFlightMap s"]
      have "e = (req_url rq, length (calls s)) \<or> e \<in> set (inFlightMap s)" by auto
      then show ?thesis using old entry_ok_new [OF True] by blast
    qed
    with True show ?thesis
      by (simp add: registry_ok_def calls_runFetch inFlightMap_runFetch)
  qed
qed

lemma registry_ok_attach: "registry_ok s \<Longrightarrow> registry_ok (attach h p s)"
  by (auto simp: registry_ok_def attach_def setter_defs Let_def entry_ok_attach split: option.splits)

lemma registry_ok_originate: "registry_ok s \<Longrightarrow> registry_ok (originate h u m hs b d s)"
proof -
  assume ok: "registry_ok s"
  have pre: "registry_ok t" if "inFlightMap t = inFlightMap s" "calls t = calls s" for t
    using ok that by (simp add: registry_ok_def)
  show ?thesis
    unfolding originate_def Let_def
    by (auto split: option.splits intro!: registry_ok_runFetch pre simp: clearTimeout_def)
qed


lemma registry_ok_hooks: "registry_ok (update_hook h f s) = registry_ok s"
  by (simp add: registry_ok_def)

lemma registry_ok_fetchData: "registry_ok s \<Longrightarrow> registry_ok (fetchData h s)"
  by (simp add: fetchData_def Let_def setter_defs registry_ok_hooks registry_ok_attach
      registry_ok_originate split: option.splits prod.splits)

lemma registry_ok_subset:
  "registry_ok s \<Longrightarrow> set (inFlightMap t) \<subseteq> set (inFlightMap s) \<Longrightarrow> calls t = calls s \<Longrightarrow> registry_ok t"
  by (auto simp: registry_ok_def)

lemma calls_cleanup [simp]: "calls (cleanup h s) = calls s"
  by (simp add: cleanup_def clearTimeout_def Let_def split: option.splits)

lemma inFlightMap_cleanup: "set (inFlightMap (cleanup h s)) \<subseteq> set (inFlightMap s)"
  by (auto simp: cleanup_def clearTimeout_def Let_def set_Map_delete split: option.splits)

lemma registry_ok_cleanup: "registry_ok s \<Longrightarrow> registry_ok (cleanup h s)"
  by (erule registry_ok_subset) (simp_all add: inFlightMap_cleanup)

lemma registry_ok_timer_fire: "registry_ok s \<Longrightarrow> registry_ok (timer_fire t s)"
proof -
  assume ok: "registry_ok s"
  have "registry_ok (s\<lparr>timers := f\<rparr>)" for f
    using ok by (simp add: registry_ok_def)
  then show ?thesis
    using ok by (simp add: timer_fire_def registry_ok_runFetch split: option.splits)
qed

lemma calls_settle:
  "p < length (calls s) \<Longrightarrow> settled (calls s ! p) = None \<Longrightarrow>
   calls (settle p r s) =
     (calls s)[p := (calls s ! p)\<lparr>settled := Some (settle_outcome s (request (calls s ! p)) r)\<rparr>]"
  by (simp add: settle_def Let_def chain_then_def originator_reaction_def setter_defs settle_outcome_def
      split: outcome.splits)

lemma inFlightMap_settle:
  "p < length (calls s) \<Longrightarrow> settled (calls s ! p) = None \<Longrightarrow>
   inFlightMap (settle p r s) =
     (if req_method (request (calls s ! p)) = ''GET''
      then Map_delete (req_url (request (calls s ! p))) (inFlightMap s)
      else inFlightMap s)"
  by (simp add: settle_def Let_def chain_then_def originator_reaction_def setter_defs
      split: outcome.splits)

lemma settle_idle:
  "\<not> (p < length (calls s) \<and> settled (calls s ! p) = None) \<Longrightarrow> settle p r s = s"
  by (auto simp: settle_def Let_def split: option.splits)

lemma registry_ok_settle: "registry_ok s \<Longrightarrow> registry_ok (settle p r s)"
proof (cases "p < length (calls s) \<and> settled (calls s ! p) = None")
  case False
  assume "registry_ok s"
  with False show ?thesis by (simp add: settle_idle)
next
  case True
  assume ok: "registry_ok s"
  let ?c = "calls s ! p"
  let ?cs = "(calls s)[p := ?c\<lparr>settled := Some (settle_outcome s (request ?c) r)\<rparr>]"
  have "entry_ok ?cs e" if e: "e \<in> set (inFlightMap (settle p r s))" for e
  proof -
    from e True have mem: "e \<in> set (inFlightMap s)"
      by (auto simp: inFlightMap_settle set_Map_delete split: if_splits)
    with ok have eok: "entry_ok (calls s) e" by (simp add: registry_ok_def)
    have "snd e \<noteq> p"
    proof
      assume "snd e = p"
      with eok have "req_method (request ?c) = ''GET''" "req_url (request ?c) = fst e"
        by (simp_all add: entry_ok_def)
      with e True show False
        by (simp add: inFlightMap_settle set_Map_delete)
    qed
    with eok show ?thesis by (rule entry_ok_other)
  qed
  with True show ?thesis
    by (simp add: registry_ok_def calls_settle)
qed

lemma registry_ok_step: "registry_ok s \<Longrightarrow> registry_ok (step e s)"
proof (cases e)
  case (Mount h u opts)
  assume ok: "registry_ok s"
  have "registry_ok (s\<lparr>hooks := f\<rparr>)" for f
    using ok by (simp add: registry_ok_def)
  with ok show ?thesis
    by (simp add: Mount registry_ok_fetchData split: option.splits)
next
  case (Update h u opts)
  assume "registry_ok s"
  then show ?thesis
    by (simp add: Update registry_ok_fetchData registry_ok_hooks registry_ok_cleanup
        split: option.splits)
next
  case (Advance dt)
  assume "registry_ok s"
  then show ?thesis by (simp add: Advance registry_ok_def)
next
  case (InvalidateURL u)
  assume "registry_ok s"
  then show ?thesis
    by (auto simp: InvalidateURL registry_ok_def invalidateURL_def set_Map_delete)
qed (simp_all add: registry_ok_fetchData registry_ok_cleanup registry_ok_timer_fire
    registry_ok_settle, simp add: registry_ok_def clearCache_def)

lemma registry_ok_run: "registry_ok (run es init)"
  by (rule run_invariant) (simp_all add: registry_ok_step, simp add: registry_ok_def init_def)


lemma hooks_attached_reaction:
  "hooks (attached_reaction out h s) =
     (hooks s)(h := map_option (attached_effect out) (hooks s h))"
  by (cases "hooks s h")
    (auto simp: attached_reaction_def attached_effect_def setter_defs Let_def fun_eq_iff
      split: outcome.splits)

lemma attached_effect_idem: "attached_effect out (attached_effect out k) = attached_effect out k"
  by (simp add: attached_effect_def split: outcome.splits)

lemma hooks_fold_attached:
  "hooks (fold (attached_reaction out) hs s) h =
     (if h \<in> set hs then map_option (attached_effect out) (hooks s h) else hooks s h)"
proof (induction hs arbitrary: s)
  case Nil
  show ?case by simp
next
  case (Cons x xs)
  show ?case
    by (cases "hooks s h")
      (auto simp: Cons.IH hooks_attached_reaction attached_effect_idem)
qed

lemma hooks_originator_reaction:
  "hooks (originator_reaction rq out s) =
     (hooks s)(req_owner rq := map_option (originator_effect out) (hooks s (req_owner rq)))"
  by (cases "hooks s (req_owner rq)")
    (auto simp: originator_reaction_def originator_effect_def setter_defs Let_def fun_eq_iff
      split: outcome.splits)

lemma hooks_chain_then [simp]: "hooks (chain_then rq out s) = hooks s"
  by (simp add: chain_then_def split: outcome.splits)

lemma hooks_settle:
  assumes "p < length (calls s)" and "settled (calls s ! p) = None"
  shows "hooks (settle p r s) h =
     (let c = calls s ! p;
          out = settle_outcome s (request c) r;
          k1 = (if h = req_owner (request c) then map_option (originator_effect out) (hooks s h)
                else hooks s h)
      in if h \<in> set (attached c) then map_option (attached_effect out) k1 else k1)"
  using assms
  by (simp add: settle_def Let_def hooks_fold_attached hooks_originator_reaction)

lemma error_originator_effect:
  "error (originator_effect (Rejected e) k) =
     (if err_name e \<noteq> ''AbortError'' then Some (err_message e) else error k)"
  by (simp add: originator_effect_def)

lemma error_attached_effect:
  "error (attached_effect (Rejected e) k) =
     (if err_name e \<noteq> ''AbortError'' then Some (err_message e) else error k)"
  by (simp add: attached_effect_def)

lemma normalize_request_GET:
  "toUpperCase (so_method so) = ''GET'' \<Longrightarrow> normalize_request so = (''GET'', so_headers so, None)"
  by (simp add: normalize_request_def)

lemma fst_normalize_request: "fst (normalize_request so) = toUpperCase (so_method so)"
  by (simp add: normalize_request_def Let_def)

lemma fetchData_originate:
  assumes "hooks s h = Some k" and "\<not> falsy_url (url k)"
    and "normalize_request (stableOptions (options k)) = (m, hs, b)"
    and "m = ''GET'' \<longrightarrow>
           Map_get (url k) (cache s) = None \<and> Map_get (url k) (inFlightMap s) = None"
  shows "fetchData h s = originate h (url k) m hs b (so_debounce (stableOptions (options k))) s"
  using assms by (simp add: fetchData_def Let_def)

lemma fetchData_attach:
  assumes "hooks s h = Some k" and "\<not> falsy_url (url k)"
    and "toUpperCase (so_method (stableOptions (options k))) = ''GET''"
    and "Map_get (url k) (cache s) = None" and "Map_get (url k) (inFlightMap s) = Some p"
  shows "fetchData h s = attach h p s"
  using assms by (simp add: fetchData_def Let_def normalize_request_GET)

lemma fetchData_hit:
  assumes "hooks s h = Some k" and "\<not> falsy_url (url k)"
    and "toUpperCase (so_method (stableOptions (options k))) = ''GET''"
    and "Map_get (url k) (cache s) = Some v"
  shows "fetchData h s = setError h None (setIsLoading h False (setData h v s))"
  using assms by (simp add: fetchData_def Let_def normalize_request_GET)

lemma originate_immediate:
  assumes "hooks s h = Some k" and "d \<le> 0"
  shows "calls (originate h u m hs b d s) =
           calls s @ [\<lparr>request = \<lparr>req_url = u, req_method = m, req_headers = hs, req_body = b,
                                   req_signal = next_id s, req_owner = h\<rparr>,
                       settled = None, attached = []\<rparr>]"
    and "inFlightMap (originate h u m hs b d s) =
           (if m = ''GET'' then Map_set u (length (calls s)) (inFlightMap s) else inFlightMap s)"
    and "hooks (originate h u m hs b d s) =
           (hooks s)(h := Some (k\<lparr>controller := Some (next_id s), isLoading := True, error := None,
                                  didSetInFlight := (m = ''GET'' \<or> didSetInFlight k)\<rparr>))"
    and "aborted (originate h u m hs b d s) = aborted s"
    and "now (originate h u m hs b d s) = now s"
  using assms
  by (auto simp: originate_def clearTimeout_def runFetch_def setter_defs Let_def fun_eq_iff
      split: option.splits)

lemma attach_pending:
  assumes "p < length (calls s)" and "settled (calls s ! p) = None"
  shows "calls (attach h p s) = (calls s)[p := (calls s ! p)\<lparr>attached := attached (calls s ! p) @ [h]\<rparr>]"
    and "hooks (attach h p s) = (hooks s)(h := map_option (\<lambda>k. k\<lparr>isLoading := True\<rparr>) (hooks s h))"
    and "inFlightMap (attach h p s) = inFlightMap s"
    and "aborted (attach h p s) = aborted s"
  using assms by (simp_all add: attach_def setter_defs Let_def)

lemma data_effects:
  "data (originator_effect (Resolved v) k) = v"
  "data (attached_effect (Resolved v) k) = v"
  "error (attached_effect (Resolved v) k) = None"
  "error (originator_effect (Resolved v) k) = error k"
  by (simp_all add: originator_effect_def attached_effect_def)


lemma originate_debounced:
  assumes "hooks s h = Some k" and "0 < d"
  shows "hooks (originate h u m hs b d s) =
           (hooks s)(h := Some (k\<lparr>controller := Some (next_id s), timeoutRef := Some (next_id s + 1)\<rparr>))"
    and "timers (originate h u m hs b d s) =
           (timers (clearTimeout (timeoutRef k) s))
             (next_id s + 1 := Some \<lparr>set_at = now s, delay = d,
                callback = \<lparr>req_url = u, req_method = m, req_headers = hs, req_body = b,
                             req_signal = next_id s, req_owner = h\<rparr>\<rparr>)"
    and "next_id (originate h u m hs b d s) = next_id s + 2"
    and "now (originate h u m hs b d s) = now s"
    and "calls (originate h u m hs b d s) = calls s"
    and "inFlightMap (originate h u m hs b d s) = inFlightMap s"
    and "aborted (originate h u m hs b d s) = aborted s"
  using assms
  by (auto simp: originate_def clearTimeout_def Let_def fun_eq_iff split: option.splits)

lemma timers_clearTimeout:
  "timers (clearTimeout r s) = (case r of None \<Rightarrow> timers s | Some t \<Rightarrow> (timers s)(t := None))"
  by (simp add: clearTimeout_def split: option.splits)

lemma timer_fire_early:
  "timers s t = Some tm \<Longrightarrow> now s < set_at tm + timeout_ms (delay tm) \<Longrightarrow> timer_fire t s = s"
  by (simp add: timer_fire_def)

lemma timer_fire_due:
  "timers s t = Some tm \<Longrightarrow> set_at tm + timeout_ms (delay tm) \<le> now s \<Longrightarrow>
   calls (timer_fire t s) = calls s @ [\<lparr>request = callback tm, settled = None, attached = []\<rparr>]"
  by (simp add: timer_fire_def calls_runFetch)

lemma frame_setters [simp]:
  "frame (setData h v s) = frame s"
  "frame (setError h e s) = frame s"
  "frame (setIsLoading h b s) = frame s"
  by (simp_all add: setter_defs)





lemma options_runFetch:
  "map_option options (hooks (runFetch rq s) h') = map_option options (hooks s h')"
  by (simp add: runFetch_def setter_defs option.map_comp comp_def Let_def)


lemma hooks_clearTimeout [simp]: "hooks (clearTimeout r s) = hooks s"
  by (simp add: clearTimeout_def split: option.splits)



lemma hooks_cleanup [simp]: "hooks (cleanup h s) = hooks s"
  by (simp add: cleanup_def Let_def split: option.splits)

lemma options_timer_fire:
  "map_option options (hooks (timer_fire t s) h') = map_option options (hooks s h')"
  by (simp add: timer_fire_def options_runFetch split: option.splits)

lemma timers_runFetch [simp]: "timers (runFetch rq s) = timers s"
  by (simp add: runFetch_def setter_defs Let_def)

lemma timers_attach [simp]: "timers (attach h p s) = timers s"
  by (simp add: attach_def setter_defs Let_def split: option.splits)

lemma timers_settle [simp]: "timers (settle p r s) = timers s"
  by (simp add: settle_def Let_def originator_reaction_def chain_then_def setter_defs
      split: option.splits outcome.splits)

lemma no_timers_clearTimeout:
  "timers s = (\<lambda>t. None) \<Longrightarrow> timers (clearTimeout r s) = (\<lambda>t. None)"
  by (auto simp: clearTimeout_def split: option.splits)










lemma cache_settle_pending:
  "p < length (calls s) \<Longrightarrow> settled (calls s ! p) = None \<Longrightarrow>
   cache (settle p r s) =
     (case settle_outcome s (request (calls s ! p)) r of
        Resolved v \<Rightarrow>
          if req_method (request (calls s ! p)) = ''GET'' \<and> truthy v
          then cache_commit (req_url (request (calls s ! p))) v (cache s)
          else cache s
      | Rejected e \<Rightarrow> cache s)"
  by (simp add: settle_def Let_def chain_then_def split: outcome.splits)




lemma inFlightMap_attach [simp]: "inFlightMap (attach h p s) = inFlightMap s"
  by (simp add: attach_def setter_defs Let_def split: option.splits)





lemma exclusive_hooks [simp]:
  "exclusive (s\<lparr>hooks := f\<rparr>) = exclusive s"
  "exclusive (update_hook h g s) = exclusive s"
  by (simp_all add: exclusive_def)


lemma unreferenced_hooks [simp]:
  "unreferenced h (update_hook h' f s) = unreferenced h s"
  "unreferenced h (s\<lparr>hooks := g\<rparr>) = unreferenced h s"
  "unreferenced h (s\<lparr>now := n\<rparr>) = unreferenced h s"
  "unreferenced h (s\<lparr>cache := c\<rparr>) = unreferenced h s"
  "unreferenced h (s\<lparr>inFlightMap := m\<rparr>) = unreferenced h s"
  "unreferenced h (s\<lparr>aborted := a\<rparr>) = unreferenced h s"
  "unreferenced h (s\<lparr>next_id := i\<rparr>) = unreferenced h s"
  by (simp_all add: unreferenced_def)

lemma unreferenced_frame:
  "frame t = frame s \<Longrightarrow> unreferenced h t = unreferenced h s"
  by (simp add: unreferenced_def frame_def)

lemma hooks_runFetch_other: "req_owner rq \<noteq> h \<Longrightarrow> hooks (runFetch rq s) h = hooks s h"
  by (simp add: runFetch_def setter_defs Let_def)

lemma hooks_attached_reaction_other: "h' \<noteq> h \<Longrightarrow> hooks (attached_reaction out h' s) h = hooks s h"
  by (simp add: hooks_attached_reaction)

lemma hooks_attach_other: "h' \<noteq> h \<Longrightarrow> hooks (attach h' p s) h = hooks s h"
  by (simp add: attach_def setter_defs Let_def hooks_attached_reaction split: option.splits)

lemma hooks_originate_other: "h' \<noteq> h \<Longrightarrow> hooks (originate h' u m hs b d s) h = hooks s h"
  by (simp add: originate_def Let_def hooks_runFetch_other split: option.splits)

lemma hooks_fetchData_other: "h' \<noteq> h \<Longrightarrow> hooks (fetchData h' s) h = hooks s h"
  by (simp add: fetchData_def Let_def setter_defs hooks_attach_other hooks_originate_other
      split: option.splits prod.splits)

lemma fetchData_falsy: "hooks s h = Some k \<Longrightarrow> falsy_url (url k) \<Longrightarrow> fetchData h s = s"
  by (simp add: fetchData_def)

lemma hooks_settle_other:
  assumes "unreferenced h s"
  shows "hooks (settle p r s) h = hooks s h"
proof (cases "p < length (calls s) \<and> settled (calls s ! p) = None")
  case False
  then show ?thesis by (simp add: settle_idle)
next
  case True
  then have "calls s ! p \<in> set (calls s)" by simp
  with assms have "req_owner (request (calls s ! p)) \<noteq> h" "h \<notin> set (attached (calls s ! p))"
    by (simp_all add: unreferenced_def)
  with True show ?thesis by (simp add: hooks_settle Let_def)
qed

lemma unreferenced_runFetch:
  "unreferenced h s \<Longrightarrow> req_owner rq \<noteq> h \<Longrightarrow> unreferenced h (runFetch rq s)"
  by (simp add: unreferenced_def calls_runFetch)

lemma in_set_update: "c \<in> set (xs[p := x]) \<Longrightarrow> c = x \<or> c \<in> set xs"
  by (metis insert_iff set_update_subset_insert subsetD)

lemma frame_attach_settled:
  "\<not> (p < length (calls s) \<and> settled (calls s ! p) = None) \<Longrightarrow> frame (attach h p s) = frame s"
proof (cases "p < length (calls s)")
  case False
  then show ?thesis by (simp add: attach_def setter_defs Let_def)
next
  case True
  assume "\<not> (p < length (calls s) \<and> settled (calls s ! p) = None)"
  with True obtain out where "settled (calls s ! p) = Some out" by auto
  with True show ?thesis by (simp add: attach_def setter_defs Let_def)
qed

lemma unreferenced_attach:
  assumes "unreferenced h s" and "h' \<noteq> h"
  shows "unreferenced h (attach h' p s)"
proof (cases "p < length (calls s) \<and> settled (calls s ! p) = None")
  case False
  then have "frame (attach h' p s) = frame s" by (rule frame_attach_settled)
  then have "unreferenced h (attach h' p s) = unreferenced h s" by (rule unreferenced_frame)
  with assms show ?thesis by simp
next
  case True
  let ?c = "(calls s ! p)\<lparr>attached := attached (calls s ! p) @ [h']\<rparr>"
  from True have mem: "calls s ! p \<in> set (calls s)" by simp
  from assms mem have old: "req_owner (request (calls s ! p)) \<noteq> h" "h \<notin> set (attached (calls s ! p))"
    by (simp_all add: unreferenced_def)
  have new: "req_owner (request ?c) \<noteq> h \<and> h \<notin> set (attached ?c)"
    using old assms(2) by simp
  have each: "req_owner (request c) \<noteq> h \<and> h \<notin> set (attached c)"
    if "c \<in> set ((calls s)[p := ?c])" for c
  proof -
    from that have "c = ?c \<or> c \<in> set (calls s)" by (rule in_set_update)
    then show ?thesis
    proof
      assume "c = ?c" with new show ?thesis by simp
    next
      assume "c \<in> set (calls s)" with assms(1) show ?thesis by (simp add: unreferenced_def)
    qed
  qed
  from True have c: "calls (attach h' p s) = (calls s)[p := ?c]"
    by (simp add: attach_pending(1))
  have t: "timers (attach h' p s) = timers s" by simp
  from assms(1) have tm: "\<forall>t tm. timers s t = Some tm \<longrightarrow> req_owner (callback tm) \<noteq> h"
    by (simp add: unreferenced_def)
  show ?thesis
    unfolding unreferenced_def c t using each tm by blast
qed

lemma unreferenced_clearTimeout:
  "unreferenced h s \<Longrightarrow> unreferenced h (clearTimeout r s)"
  by (auto simp: unreferenced_def clearTimeout_def split: option.splits if_splits)

lemma originate_alt:
  "originate h u m hs b d s =
     (let cid = next_id s;
          rq = \<lparr>req_url = u, req_method = m, req_headers = hs, req_body = b,
                 req_signal = cid, req_owner = h\<rparr>;
          s2 = clearTimeout (case hooks s h of None \<Rightarrow> None | Some k \<Rightarrow> timeoutRef k)
                 (update_hook h (\<lambda>k. k\<lparr>controller := Some cid\<rparr>) (s\<lparr>next_id := cid + 1\<rparr>))
      in if 0 < d then
           update_hook h (\<lambda>k. k\<lparr>timeoutRef := Some (cid + 1)\<rparr>)
             (s2\<lparr>next_id := cid + 2,
                 timers := (timers s2)(cid + 1 := Some \<lparr>set_at = now s, delay = d, callback = rq\<rparr>)\<rparr>)
         else runFetch rq s2)"
  by (cases "hooks s h") (simp_all add: originate_def Let_def clearTimeout_def split: option.splits)

lemma unreferenced_timer:
  "unreferenced h t \<Longrightarrow> req_owner (callback tm) \<noteq> h \<Longrightarrow>
   unreferenced h (t\<lparr>next_id := i, timers := (timers t)(j := Some tm)\<rparr>)"
  by (auto simp: unreferenced_def)

lemma unreferenced_originate:
  assumes "unreferenced h s" and "h' \<noteq> h"
  shows "unreferenced h (originate h' u m hs b d s)"
proof -
  let ?s2 = "clearTimeout (case hooks s h' of None \<Rightarrow> None | Some k \<Rightarrow> timeoutRef k)
      (update_hook h' (\<lambda>k. k\<lparr>controller := Some (next_id s)\<rparr>) (s\<lparr>next_id := next_id s + 1\<rparr>))"
  have s2: "unreferenced h ?s2"
    using assms by (intro unreferenced_clearTimeout) simp
  show ?thesis
  proof (cases "0 < d")
    case True
    then show ?thesis
      using unreferenced_timer [OF s2] assms(2)
      by (simp add: originate_alt Let_def)
  next
    case False
    then show ?thesis
      using unreferenced_runFetch [OF s2] assms(2)
      by (simp add: originate_alt Let_def)
  qed
qed

lemma unreferenced_fetchData:
  "unreferenced h s \<Longrightarrow> h' \<noteq> h \<Longrightarrow> unreferenced h (fetchData h' s)"
  by (simp add: fetchData_def Let_def setter_defs unreferenced_attach unreferenced_originate
      split: option.splits prod.splits)

lemma unreferenced_settle: "unreferenced h s \<Longrightarrow> unreferenced h (settle p r s)"
proof (cases "p < length (calls s) \<and> settled (calls s ! p) = None")
  case False
  assume "unreferenced h s"
  with False show ?thesis by (simp add: settle_idle)
next
  case True
  assume a: "unreferenced h s"
  let ?c = "(calls s ! p)\<lparr>settled := Some (settle_outcome s (request (calls s ! p)) r)\<rparr>"
  from True have mem: "calls s ! p \<in> set (calls s)" by simp
  from a mem have new: "req_owner (request ?c) \<noteq> h \<and> h \<notin> set (attached ?c)"
    by (simp add: unreferenced_def)
  have each: "req_owner (request c) \<noteq> h \<and> h \<notin> set (attached c)"
    if "c \<in> set ((calls s)[p := ?c])" for c
  proof -
    from that have "c = ?c \<or> c \<in> set (calls s)" by (rule in_set_update)
    then show ?thesis
    proof
      assume "c = ?c" with new show ?thesis by simp
    next
      assume "c \<in> set (calls s)" with a show ?thesis by (simp add: unreferenced_def)
    qed
  qed
  from True have c: "calls (settle p r s) = (calls s)[p := ?c]"
    by (simp add: calls_settle)
  have t: "timers (settle p r s) = timers s" by simp
  from a have tm: "\<forall>t tm. timers s t = Some tm \<longrightarrow> req_owner (callback tm) \<noteq> h"
    by (simp add: unreferenced_def)
  show ?thesis
    unfolding unreferenced_def c t using each tm by blast
qed

lemma unreferenced_cleanup: "unreferenced h s \<Longrightarrow> unreferenced h (cleanup h' s)"
  by (cases "hooks s h'")
    (simp_all add: cleanup_def Let_def unreferenced_clearTimeout split: option.splits)

lemma timer_fire_other:
  assumes "unreferenced h s"
  shows "hooks (timer_fire t s) h = hooks s h" and "unreferenced h (timer_fire t s)"
proof -
  have rm: "unreferenced h (s\<lparr>timers := (timers s)(t := None)\<rparr>)"
    using assms by (simp add: unreferenced_def)
  have owner: "req_owner (callback tm) \<noteq> h" if "timers s t = Some tm" for tm
    using assms that by (simp add: unreferenced_def)
  show "hooks (timer_fire t s) h = hooks s h"
    using owner by (cases "timers s t") (simp_all add: timer_fire_def hooks_runFetch_other)
  show "unreferenced h (timer_fire t s)"
    using owner assms unreferenced_runFetch [OF rm]
    by (cases "timers s t") (simp_all add: timer_fire_def)
qed

lemma still_initial_hooks:
  "hooks t h = hooks s h \<Longrightarrow> unreferenced h t \<Longrightarrow> still_initial h s \<Longrightarrow> still_initial h t"
  by (simp add: still_initial_def)

lemma still_initial_fetchData: "still_initial h s \<Longrightarrow> still_initial h (fetchData h' s)"
proof (cases "h' = h")
  case True
  assume "still_initial h s"
  then show ?thesis
    using True by (auto simp: still_initial_def fetchData_falsy)
next
  case False
  assume a: "still_initial h s"
  then have "unreferenced h s" by (simp add: still_initial_def)
  with False have "hooks (fetchData h' s) h = hooks s h" "unreferenced h (fetchData h' s)"
    by (simp_all add: hooks_fetchData_other unreferenced_fetchData)
  then show ?thesis using a by (rule still_initial_hooks)
qed

lemma still_initial_step:
  assumes a: "still_initial h s" and k: "keeps_url_falsy h e"
  shows "still_initial h (step e s)"
proof -
  from a have un: "unreferenced h s" by (simp add: still_initial_def)
  from a obtain k0 where k0: "hooks s h = Some k0" by (auto simp: still_initial_def)
  show ?thesis
  proof (cases e)
    case (Mount h' u opts)
    show ?thesis
    proof (cases "hooks s h'")
      case (Some k') with a show ?thesis by (simp add: Mount)
    next
      case None
      with k0 have ne: "h' \<noteq> h" by auto
      with a have "still_initial h (s\<lparr>hooks := (hooks s)(h' := Some (initial_hook u opts))\<rparr>)"
        by (simp add: still_initial_def)
      then show ?thesis
        using None by (simp add: Mount still_initial_fetchData)
    qed
  next
    case (Update h' u opts)
    show ?thesis
    proof (cases "hooks s h'")
      case None with a show ?thesis by (simp add: Update)
    next
      case (Some k')
      have c: "still_initial h (cleanup h' s)"
        using a un by (intro still_initial_hooks [OF _ _ a] unreferenced_cleanup) simp_all
      have "still_initial h (update_hook h' (\<lambda>k. k\<lparr>url := u, options := opts\<rparr>) (cleanup h' s))"
      proof (cases "h' = h")
        case True
        with k Update have "falsy_url u" by (simp add: keeps_url_falsy_def)
        with c True show ?thesis by (auto simp: still_initial_def)
      next
        case False
        with c show ?thesis by (simp add: still_initial_def)
      qed
      then show ?thesis
        using Some by (simp add: Update still_initial_fetchData)
    qed
  next
    case (Unmount h')
    show ?thesis
      using a un by (simp add: Unmount) (intro still_initial_hooks [OF _ _ a] unreferenced_cleanup, simp_all)
  next
    case (Refetch h')
    with a show ?thesis by (simp add: still_initial_fetchData)
  next
    case (TimerFire t)
    show ?thesis
      using timer_fire_other [OF un, of t] a by (simp add: TimerFire still_initial_hooks)
  next
    case (Advance dt)
    with a show ?thesis by (simp add: still_initial_def)
  next
    case (Settle p r)
    show ?thesis
      using hooks_settle_other [OF un, of p r] unreferenced_settle [OF un, of p r] a
      by (simp add: Settle still_initial_hooks)
  next
    case ClearCache
    with a show ?thesis by (simp add: still_initial_def clearCache_def)
  next
    case (InvalidateURL u)
    with a show ?thesis by (simp add: still_initial_def invalidateURL_def)
  qed
qed

lemma still_initial_run:
  "still_initial h s \<Longrightarrow> \<forall>e \<in> set es. keeps_url_falsy h e \<Longrightarrow> still_initial h (run es s)"
  by (induction es arbitrary: s) (simp_all add: still_initial_step)

lemma Map_get_cache_commit_new:
  "Map_get k (cache_commit u v c) = Some w \<Longrightarrow> Map_get k c \<noteq> Some w \<Longrightarrow> k = u \<and> w = v"
  by (auto simp: cache_commit_def Map_get_set Map_get_delete split: if_splits list.splits)

lemma cache_step_cases:
  assumes new: "Map_get u (cache (step e s)) = Some v" and old: "Map_get u (cache s) \<noteq> Some v"
  shows "\<exists>p r. e = Settle p r \<and> p < length (calls s) \<and> settled (calls s ! p) = None
          \<and> req_method (request (calls s ! p)) = ''GET'' \<and> req_url (request (calls s ! p)) = u
          \<and> settle_outcome s (request (calls s ! p)) r = Resolved v \<and> truthy v
          \<and> cache (step e s) = cache_commit u v (cache s)"
proof (cases e)
  case (Settle p r)
  show ?thesis
  proof (cases "p < length (calls s) \<and> settled (calls s ! p) = None")
    case False
    with new old Settle show ?thesis by (simp add: settle_idle)
  next
    case True
    let ?rq = "request (calls s ! p)"
    note c = cache_settle_pending [of p s r]
    show ?thesis
    proof (cases "settle_outcome s ?rq r")
      case (Rejected x)
      with new old Settle True c show ?thesis by simp
    next
      case (Resolved w)
      show ?thesis
      proof (cases "req_method ?rq = ''GET'' \<and> truthy w")
        case False
        with new old Settle True c Resolved show ?thesis by auto
      next
        case g: True
        with True c Resolved have cc: "cache (settle p r s) = cache_commit (req_url ?rq) w (cache s)"
          by simp
        with new Settle have "Map_get u (cache_commit (req_url ?rq) w (cache s)) = Some v" by simp
        from Map_get_cache_commit_new [OF this old] have "u = req_url ?rq" "v = w" by simp_all
        with True g Resolved cc Settle show ?thesis by simp
      qed
    qed
  qed
next
  case (Mount h u' opts)
  with new old show ?thesis by (simp split: option.splits)
next
  case (Update h u' opts)
  with new old show ?thesis by (simp split: option.splits)
next
  case ClearCache
  with new show ?thesis by (simp add: clearCache_def Map_get_def)
next
  case (InvalidateURL u')
  with new old show ?thesis by (simp add: invalidateURL_def Map_get_delete split: if_splits)
qed (use new old in simp_all)

lemma attached_reaction_maps:
  "attached_reaction out h (s\<lparr>cache := c, inFlightMap := f\<rparr>)
     = (attached_reaction out h s)\<lparr>cache := c, inFlightMap := f\<rparr>"
  by (simp add: attached_reaction_def setter_defs update_hook_def Let_def split: outcome.splits)

lemma fold_attached_maps:
  "fold (attached_reaction out) hs (s\<lparr>cache := c, inFlightMap := f\<rparr>)
     = (fold (attached_reaction out) hs s)\<lparr>cache := c, inFlightMap := f\<rparr>"
  by (induction hs arbitrary: s) (simp_all add: attached_reaction_maps)

lemma runFetch_maps:
  "req_method rq \<noteq> ''GET'' \<Longrightarrow>
   runFetch rq (s\<lparr>cache := c, inFlightMap := f\<rparr>) = (runFetch rq s)\<lparr>cache := c, inFlightMap := f\<rparr>"
  by (simp add: runFetch_def setter_defs update_hook_def Let_def)

lemma clearTimeout_maps:
  "clearTimeout r (s\<lparr>cache := c, inFlightMap := f\<rparr>) = (clearTimeout r s)\<lparr>cache := c, inFlightMap := f\<rparr>"
  by (simp add: clearTimeout_def split: option.splits)

lemma update_hook_maps:
  "update_hook h g (s\<lparr>cache := c, inFlightMap := f\<rparr>) = (update_hook h g s)\<lparr>cache := c, inFlightMap := f\<rparr>"
  by (simp add: update_hook_def)

lemma originate_maps:
  "m \<noteq> ''GET'' \<Longrightarrow>
   originate h u m hs b d (s\<lparr>cache := c, inFlightMap := f\<rparr>)
     = (originate h u m hs b d s)\<lparr>cache := c, inFlightMap := f\<rparr>"
  by (simp add: originate_alt Let_def update_hook_def clearTimeout_def runFetch_def setter_defs
      split: option.splits)

lemma fetchData_maps:
  assumes "hooks s h = Some k" and "toUpperCase (so_method (stableOptions (options k))) \<noteq> ''GET''"
  shows "fetchData h (s\<lparr>cache := c, inFlightMap := f\<rparr>)
           = (fetchData h s)\<lparr>cache := c, inFlightMap := f\<rparr>"
proof -
  obtain m hs b where nr: "normalize_request (stableOptions (options k)) = (m, hs, b)"
    by (cases "normalize_request (stableOptions (options k))") auto
  with assms(2) have m: "m \<noteq> ''GET''"
    using fst_normalize_request [of "stableOptions (options k)"] by auto
  show ?thesis
    using assms(1) nr m by (simp add: fetchData_def Let_def originate_maps)
qed

lemma settle_maps:
  assumes "p < length (calls s)" and "req_method (request (calls s ! p)) \<noteq> ''GET''"
  shows "settle p r (s\<lparr>cache := c, inFlightMap := f\<rparr>)
           = (settle p r s)\<lparr>cache := c, inFlightMap := f\<rparr>"
proof (cases "settled (calls s ! p)")
  case (Some out)
  with assms show ?thesis by (simp add: settle_def Let_def)
next
  case None
  have o: "originator_reaction rq out (t\<lparr>cache := c, inFlightMap := f\<rparr>)
             = (originator_reaction rq out t)\<lparr>cache := c, inFlightMap := f\<rparr>"
    if "req_method rq \<noteq> ''GET''" for rq out t
    using that
    by (simp add: originator_reaction_def setter_defs update_hook_def Let_def split: outcome.splits)
  have ch: "chain_then rq out t = t" if "req_method rq \<noteq> ''GET''" for rq out t
    using that by (simp add: chain_then_def split: outcome.splits)
  have so: "settle_outcome (s\<lparr>cache := c, inFlightMap := f\<rparr>) rq r = settle_outcome s rq r" for rq
    by (simp add: settle_outcome_def)
  have up: "s\<lparr>cache := c, inFlightMap := f, calls := cs\<rparr> = s\<lparr>calls := cs\<rparr>\<lparr>cache := c, inFlightMap := f\<rparr>" for cs
    by simp
  show ?thesis
    using assms None
    by (simp add: settle_def Let_def ch so up o fold_attached_maps del: state.update_convs)
qed

lemma timeout_ms_small: "0 \<le> d \<Longrightarrow> d < 2147483648 \<Longrightarrow> timeout_ms d = nat d"
  by (simp add: timeout_ms_def Let_def)

lemma timeout_ms_overflow: "timeout_ms 2147483648 = 0"
  by (simp add: timeout_ms_def Let_def)

lemma run_append: "run (xs @ ys) s = run ys (run xs s)"
  by (induction xs arbitrary: s) simp_all

lemma Map_set_absent: "k \<notin> fst ` set m \<Longrightarrow> Map_set k v m = m @ [(k, v)]"
  by (induction m) auto

lemma Map_get_absent: "k \<notin> fst ` set m \<Longrightarrow> Map_get k m = None"
  by (simp add: Map_get_def map_of_eq_None_iff)

lemma item_url_inj: "item_url i = item_url j \<Longrightarrow> i = j"
  by (simp add: item_url_def replicate_eq_replicate)

lemma item_keys: "fst ` set (item_cache n) = item_url ` {0..<n}"
  by (force simp: item_cache_def)

lemma item_url_fresh: "item_url n \<notin> fst ` set (item_cache n)"
  by (auto simp: item_keys dest: item_url_inj)

lemma item_cache_Suc: "item_cache (Suc n) = item_cache n @ [(item_url n, JBool True)]"
  by (simp add: item_cache_def)

lemma item_url_truthy: "\<not> falsy_url (item_url n)"
  by (simp add: item_url_def falsy_url_def)

lemma aborted_settle [simp]: "aborted (settle p r s) = aborted s"
  by (simp add: settle_def Let_def originator_reaction_def chain_then_def setter_defs
      split: option.splits outcome.splits)

lemma no_options_request:
  "normalize_request (stableOptions no_options) = (''GET'', [], None)"
  "so_debounce (stableOptions no_options) = 0"
  by (simp_all add: normalize_request_def stableOptions_def no_options_def toUpperCase_def
      upper_char_def)

lemma mount_fresh_get:
  assumes h: "hooks s n = None" and u: "\<not> falsy_url u"
    and c: "Map_get u (cache s) = None" and r: "inFlightMap s = []"
  shows "calls (step (Mount n u no_options) s) =
           calls s @ [\<lparr>request = \<lparr>req_url = u, req_method = ''GET'', req_headers = [],
                                   req_body = None, req_signal = next_id s, req_owner = n\<rparr>,
                       settled = None, attached = []\<rparr>]"
    and "inFlightMap (step (Mount n u no_options) s) = [(u, length (calls s))]"
    and "cache (step (Mount n u no_options) s) = cache s"
    and "aborted (step (Mount n u no_options) s) = aborted s"
    and "i \<noteq> n \<Longrightarrow> hooks (step (Mount n u no_options) s) i = hooks s i"
proof -
  let ?s0 = "s\<lparr>hooks := (hooks s)(n := Some (initial_hook u no_options))\<rparr>"
  have k: "hooks ?s0 n = Some (initial_hook u no_options)" by simp
  have uk: "url (initial_hook u no_options) = u" "options (initial_hook u no_options) = no_options"
    by (simp_all add: initial_hook_def)
  have f: "fetchData n ?s0 = originate n u ''GET'' [] None 0 ?s0"
    using fetchData_originate [OF k, of "''GET''" "[]" None] u c r
    by (simp add: uk no_options_request Map_get_def)
  have st: "step (Mount n u no_options) s = originate n u ''GET'' [] None 0 ?s0"
    using h f by simp
  note o = originate_immediate [OF k, of 0 u "''GET''" "[]" None]
  show "calls (step (Mount n u no_options) s) =
           calls s @ [\<lparr>request = \<lparr>req_url = u, req_method = ''GET'', req_headers = [],
                                   req_body = None, req_signal = next_id s, req_owner = n\<rparr>,
                       settled = None, attached = []\<rparr>]"
    unfolding st using o(1) by simp
  show "inFlightMap (step (Mount n u no_options) s) = [(u, length (calls s))]"
    unfolding st using o(2) r by simp
  show "cache (step (Mount n u no_options) s) = cache s"
    unfolding st by simp
  show "aborted (step (Mount n u no_options) s) = aborted s"
    unfolding st using o(4) by simp
  show "hooks (step (Mount n u no_options) s) i = hooks s i" if "i \<noteq> n"
    unfolding st using o(3) that by simp
qed

lemma settle_fresh_get:
  assumes cs: "calls s = cs @ [\<lparr>request = rq, settled = None, attached = []\<rparr>]"
    and m: "req_method rq = ''GET''" and a: "aborted s = {}"
    and r: "inFlightMap s = [(req_url rq, length cs)]" and v: "truthy v"
  shows "cache (step (Settle (length cs) (Response True st (Inr v))) s)
           = cache_commit (req_url rq) v (cache s)"
    and "inFlightMap (step (Settle (length cs) (Response True st (Inr v))) s) = []"
    and "length (calls (step (Settle (length cs) (Response True st (Inr v))) s)) = Suc (length cs)"
    and "aborted (step (Settle (length cs) (Response True st (Inr v))) s) = {}"
    and "i \<noteq> req_owner rq \<Longrightarrow>
           hooks (step (Settle (length cs) (Response True st (Inr v))) s) i = hooks s i"
proof -
  have p: "length cs < length (calls s)" "settled (calls s ! length cs) = None"
    and rqp: "request (calls s ! length cs) = rq" "attached (calls s ! length cs) = []"
    by (simp_all add: cs)
  have out: "settle_outcome s rq (Response True st (Inr v)) = Resolved v"
    by (simp add: settle_outcome_def fetch_outcome_def a)
  show "cache (step (Settle (length cs) (Response True st (Inr v))) s)
           = cache_commit (req_url rq) v (cache s)"
    using cache_settle_pending [OF p] by (simp add: rqp out m v)
  show "inFlightMap (step (Settle (length cs) (Response True st (Inr v))) s) = []"
    using inFlightMap_settle [OF p] by (simp add: rqp m r Map_delete_def)
  show "length (calls (step (Settle (length cs) (Response True st (Inr v))) s)) = Suc (length cs)"
    using calls_settle [OF p] by (simp add: cs)
  show "aborted (step (Settle (length cs) (Response True st (Inr v))) s) = {}"
    by (simp add: a)
  show "hooks (step (Settle (length cs) (Response True st (Inr v))) s) i = hooks s i"
    if "i \<noteq> req_owner rq"
    using hooks_settle [OF p] that by (simp add: rqp Let_def)
qed

lemma filled_mount:
  assumes f: "filled n s"
  shows "calls (step (Mount n (item_url n) no_options) s) =
           calls s @ [\<lparr>request = \<lparr>req_url = item_url n, req_method = ''GET'', req_headers = [],
                                   req_body = None, req_signal = next_id s, req_owner = n\<rparr>,
                       settled = None, attached = []\<rparr>]"
    and "inFlightMap (step (Mount n (item_url n) no_options) s) = [(item_url n, n)]"
    and "cache (step (Mount n (item_url n) no_options) s) = item_cache n"
    and "aborted (step (Mount n (item_url n) no_options) s) = {}"
    and "n < i \<Longrightarrow> hooks (step (Mount n (item_url n) no_options) s) i = None"
proof -
  from f have h: "hooks s n = None" and c: "cache s = item_cache n" and r: "inFlightMap s = []"
    and l: "length (calls s) = n" and a: "aborted s = {}"
    and hs: "\<And>i. n \<le> i \<Longrightarrow> hooks s i = None"
    by (simp_all add: filled_def)
  have miss: "Map_get (item_url n) (cache s) = None"
    unfolding c by (rule Map_get_absent) (rule item_url_fresh)
  note m = mount_fresh_get [OF h item_url_truthy miss r]
  show "calls (step (Mount n (item_url n) no_options) s) =
           calls s @ [\<lparr>request = \<lparr>req_url = item_url n, req_method = ''GET'', req_headers = [],
                                   req_body = None, req_signal = next_id s, req_owner = n\<rparr>,
                       settled = None, attached = []\<rparr>]"
    by (rule m(1))
  show "inFlightMap (step (Mount n (item_url n) no_options) s) = [(item_url n, n)]"
    using m(2) l by simp
  show "cache (step (Mount n (item_url n) no_options) s) = item_cache n"
    using m(3) c by simp
  show "aborted (step (Mount n (item_url n) no_options) s) = {}"
    using m(4) a by simp
  show "hooks (step (Mount n (item_url n) no_options) s) i = None" if "n < i"
    using m(5) [of i] hs [of i] that by simp
qed

lemma filled_Suc:
  assumes f: "filled n s" and n: "n < MAX_CACHE_SIZE"
  shows "filled (Suc n) (run [Mount n (item_url n) no_options, Settle n item_response] s)"
proof -
  let ?s1 = "step (Mount n (item_url n) no_options) s"
  let ?rq = "\<lparr>req_url = item_url n, req_method = ''GET'', req_headers = [],
              req_body = None, req_signal = next_id s, req_owner = n\<rparr>"
  from f have l: "length (calls s) = n" by (simp add: filled_def)
  note m = filled_mount [OF f]
  have r: "inFlightMap ?s1 = [(req_url ?rq, length (calls s))]"
    using m(2) l by (simp del: step.simps)
  note t = settle_fresh_get [OF m(1) _ m(4) r, where v = "JBool True" and st = 200, unfolded l]
  have size: "Map_size (item_cache n) < MAX_CACHE_SIZE"
    using n by (simp add: Map_size_def item_cache_def)
  have cc: "cache_commit (item_url n) (JBool True) (item_cache n) = item_cache (Suc n)"
    using size by (simp add: cache_commit_room Map_set_absent item_url_fresh item_cache_Suc)
  have "cache (step (Settle n item_response) ?s1) = item_cache (Suc n)"
    using t(1) by (simp add: item_response_def m(3) cc del: step.simps)
  moreover have "inFlightMap (step (Settle n item_response) ?s1) = []"
    using t(2) by (simp add: item_response_def del: step.simps)
  moreover have "length (calls (step (Settle n item_response) ?s1)) = Suc n"
    using t(3) by (simp add: item_response_def del: step.simps)
  moreover have "aborted (step (Settle n item_response) ?s1) = {}"
    using t(4) by (simp add: item_response_def del: step.simps)
  moreover have "hooks (step (Settle n item_response) ?s1) i = None" if "Suc n \<le> i" for i
    using t(5) [where i = i] m(5) [of i] that by (simp add: item_response_def del: step.simps)
  ultimately show ?thesis
    by (simp add: filled_def del: step.simps)
qed

lemma filled_run: "n \<le> MAX_CACHE_SIZE \<Longrightarrow> filled n (run (fill_events n) init)"
proof (induction n)
  case 0
  show ?case by (simp add: filled_def init_def item_cache_def)
next
  case (Suc n)
  then have "filled n (run (fill_events n) init)" by simp
  then show ?case
    using Suc.prems filled_Suc [of n "run (fill_events n) init"]
    by (simp add: run_append del: run.simps(2))
qed

text \<open>The definitions a concrete run unfolds.\<close>

lemmas eval_defs =
  init_def initial_hook_def no_options_def fetchData_def normalize_request_def falsy_url_def stableOptions_def
  toUpperCase_def upper_char_def Map_get_def Map_has_def Map_delete_def Map_size_def
  originate_def clearTimeout_def timeout_ms_def attach_def runFetch_def update_hook_def setData_def setError_def
  setIsLoading_def timer_fire_def cleanup_def settle_def settle_outcome_def fetch_outcome_def
  chain_then_def cache_commit_def originator_reaction_def attached_reaction_def
  abort_error_def clearCache_def invalidateURL_def MAX_CACHE_SIZE_def Let_def

section \<open>The claims\<close>

text \<open>
  C1 does not hold of the code. Two components mount the hook for the same URL with
  method GET and \<^verbatim>\<open>debounce: 100\<close>. Each finds neither a cache entry nor a registry
  entry at its invocation, since \<^verbatim>\<open>runFetch\<close> registers the call only when its timer
  comes due and does not look at the registry again. Both timers come due, and the
  transport is invoked twice for the URL, neither call having settled.
\<close>

theorem debounced_gets_both_reach_the_transport:
  "length (calls (run two_debounced_mounts init)) = 2
   \<and> req_url (request (calls (run two_debounced_mounts init) ! 0)) = Some ''/profile''
   \<and> req_url (request (calls (run two_debounced_mounts init) ! 1)) = Some ''/profile''
   \<and> req_method (request (calls (run two_debounced_mounts init) ! 0)) = ''GET''
   \<and> req_method (request (calls (run two_debounced_mounts init) ! 1)) = ''GET''
   \<and> req_owner (request (calls (run two_debounced_mounts init) ! 0)) = 0
   \<and> req_owner (request (calls (run two_debounced_mounts init) ! 1)) = 1
   \<and> settled (calls (run two_debounced_mounts init) ! 0) = None
   \<and> settled (calls (run two_debounced_mounts init) ! 1) = None"
  by (simp add: two_debounced_mounts_def debounced_options_def eval_defs)

text \<open>
  The path without debounce does what the debounced one misses. Two hooks \<open>a\<close> and
  \<open>b\<close> (possibly the same) hold the same URL with method GET, the URL is neither cached
  nor in flight, and \<open>a\<close> is not debounced. When \<open>a\<close> executes and \<open>b\<close> executes next,
  with no event between them, the transport is invoked exactly once: \<open>b\<close> attaches to
  the pending call that \<open>a\<close> registered. When that call settles next, both hooks observe
  its outcome.
\<close>

lemma immediate_gets_share_one_call:
  assumes a: "hooks s a = Some ka" and b: "hooks s b = Some kb"
    and ua: "url ka = u" and ub: "url kb = u" and u: "\<not> falsy_url u"
    and ga: "toUpperCase (so_method (stableOptions (options ka))) = ''GET''"
    and gb: "toUpperCase (so_method (stableOptions (options kb))) = ''GET''"
    and imm: "so_debounce (stableOptions (options ka)) \<le> 0"
    and miss: "Map_get u (cache s) = None" "Map_get u (inFlightMap s) = None"
  shows "length (calls (run [Refetch a, Refetch b] s)) = Suc (length (calls s))
       \<and> settled (calls (run [Refetch a, Refetch b] s) ! length (calls s)) = None
       \<and> req_owner (request (calls (run [Refetch a, Refetch b] s) ! length (calls s))) = a
       \<and> attached (calls (run [Refetch a, Refetch b] s) ! length (calls s)) = [b]
       \<and> length (calls (run [Refetch a, Refetch b, Settle (length (calls s)) r] s))
           = Suc (length (calls s))
       \<and> (\<exists>out. settled (calls (run [Refetch a, Refetch b, Settle (length (calls s)) r] s)
                          ! length (calls s)) = Some out
            \<and> (\<forall>v. out = Resolved v \<longrightarrow>
                  map_option data (hooks (run [Refetch a, Refetch b, Settle (length (calls s)) r] s) a) = Some v
                \<and> map_option data (hooks (run [Refetch a, Refetch b, Settle (length (calls s)) r] s) b) = Some v)
            \<and> (\<forall>e. out = Rejected e \<and> err_name e \<noteq> ''AbortError'' \<longrightarrow>
                  map_option error (hooks (run [Refetch a, Refetch b, Settle (length (calls s)) r] s) a)
                    = Some (Some (err_message e))
                \<and> map_option error (hooks (run [Refetch a, Refetch b, Settle (length (calls s)) r] s) b)
                    = Some (Some (err_message e))))"
proof -
  let ?p = "length (calls s)"
  let ?rq = "\<lparr>req_url = u, req_method = ''GET'',
              req_headers = so_headers (stableOptions (options ka)), req_body = None,
              req_signal = next_id s, req_owner = a\<rparr>"
  let ?c = "\<lparr>request = ?rq, settled = None, attached = []\<rparr>"
  let ?ka = "ka\<lparr>controller := Some (next_id s), isLoading := True, error := None,
                 didSetInFlight := True\<rparr>"
  define s1 where "s1 = fetchData a s"
  define s2 where "s2 = fetchData b s1"
  define s3 where "s3 = settle ?p r s2"
  have f1: "s1 = originate a u ''GET'' (so_headers (stableOptions (options ka))) None
                   (so_debounce (stableOptions (options ka))) s"
    unfolding s1_def
    using fetchData_originate [OF a, of "''GET''" "so_headers (stableOptions (options ka))" None]
      ua u ga miss
    by (simp add: normalize_request_GET)
  have calls1: "calls s1 = calls s @ [?c]"
    and reg1: "inFlightMap s1 = Map_set u ?p (inFlightMap s)"
    and hooks1: "hooks s1 = (hooks s)(a := Some ?ka)"
    unfolding f1 using originate_immediate [OF a imm] by simp_all
  have cache1: "cache s1 = cache s" by (simp add: s1_def)
  obtain kb' where b1: "hooks s1 b = Some kb'" and ub1: "url kb' = u"
    and gb1: "toUpperCase (so_method (stableOptions (options kb'))) = ''GET''"
    using a b ua ub ga gb by (cases "b = a") (auto simp: hooks1)
  have f2: "s2 = attach b ?p s1"
    unfolding s2_def
    using fetchData_attach [OF b1, of ?p] ub1 u gb1 miss
    by (simp add: cache1 reg1 Map_get_set)
  have pend1: "?p < length (calls s1)" "settled (calls s1 ! ?p) = None"
    by (simp_all add: calls1)
  have calls2: "calls s2 = calls s @ [?c\<lparr>attached := [b]\<rparr>]"
    unfolding f2 using attach_pending(1) [OF pend1] by (simp add: calls1)
  have hooks2: "hooks s2 = (hooks s1)(b := map_option (\<lambda>k. k\<lparr>isLoading := True\<rparr>) (hooks s1 b))"
    unfolding f2 using attach_pending(2) [OF pend1] by simp
  have pend2: "?p < length (calls s2)" "settled (calls s2 ! ?p) = None"
    by (simp_all add: calls2)
  have c2: "calls s2 ! ?p = ?c\<lparr>attached := [b]\<rparr>"
    by (simp add: calls2)
  obtain ka2 kb2 where a2: "hooks s2 a = Some ka2" and b2: "hooks s2 b = Some kb2"
    using a b by (cases "b = a") (auto simp: hooks2 hooks1)
  define out where "out = settle_outcome s2 ?rq r"
  have calls3: "calls s3 = (calls s2)[?p := (calls s2 ! ?p)\<lparr>settled := Some out\<rparr>]"
    unfolding s3_def out_def using calls_settle [OF pend2] by (simp add: c2)
  have hooks3: "hooks s3 h =
      (let k1 = (if h = a then map_option (originator_effect out) (hooks s2 h) else hooks s2 h)
       in if h = b then map_option (attached_effect out) k1 else k1)" for h
    unfolding s3_def out_def using hooks_settle [OF pend2, of r h] by (simp add: c2 Let_def)
  have run2: "run [Refetch a, Refetch b] s = s2"
    by (simp add: s2_def s1_def)
  have run3: "run [Refetch a, Refetch b, Settle ?p r] s = s3"
    by (simp add: s3_def s2_def s1_def)
  have res: "map_option data (hooks s3 a) = Some v \<and> map_option data (hooks s3 b) = Some v"
    if "out = Resolved v" for v
    using that a2 b2 by (auto simp: hooks3 Let_def data_effects)
  have rej: "map_option error (hooks s3 a) = Some (Some (err_message e))
           \<and> map_option error (hooks s3 b) = Some (Some (err_message e))"
    if "out = Rejected e" "err_name e \<noteq> ''AbortError''" for e
    using that a2 b2
    by (auto simp: hooks3 Let_def error_originator_effect error_attached_effect)
  have set3: "settled (calls s3 ! ?p) = Some out"
    by (simp add: calls3 calls2)
  show ?thesis
    unfolding run2 run3
    using res rej set3 by (simp add: calls2 calls3)
qed

lemma immediate_gets_share_one_call_example:
  "hooks (run two_idle_hooks init) 0 \<noteq> None
   \<and> hooks (run two_idle_hooks init) 1 \<noteq> None
   \<and> Map_get (Some ''/profile'') (cache (run two_idle_hooks init)) = None
   \<and> Map_get (Some ''/profile'') (inFlightMap (run two_idle_hooks init)) = None
   \<and> length (calls (run two_idle_hooks init)) = 2
   \<and> length (calls (run [Refetch 0, Refetch 1, Settle 2 (Response True 200 (Inr (JStr ''ada'')))]
         (run two_idle_hooks init))) = 3
   \<and> map_option data (hooks (run [Refetch 0, Refetch 1, Settle 2 (Response True 200 (Inr (JStr ''ada'')))]
         (run two_idle_hooks init)) 0) = Some (JStr ''ada'')
   \<and> map_option data (hooks (run [Refetch 0, Refetch 1, Settle 2 (Response True 200 (Inr (JStr ''ada'')))]
         (run two_idle_hooks init)) 1) = Some (JStr ''ada'')"
proof -
  let ?s = "run two_idle_hooks init"
  let ?r = "Response True 200 (Inr (JStr ''ada''))"
  obtain ka where a: "hooks ?s 0 = Some ka" and ua: "url ka = Some ''/profile''"
    and ga: "toUpperCase (so_method (stableOptions (options ka))) = ''GET''"
    and imm: "so_debounce (stableOptions (options ka)) \<le> 0"
    by (simp add: two_idle_hooks_def failed_to_fetch_def eval_defs)
  obtain kb where b: "hooks ?s 1 = Some kb" and ub: "url kb = Some ''/profile''"
    and gb: "toUpperCase (so_method (stableOptions (options kb))) = ''GET''"
    by (simp add: two_idle_hooks_def failed_to_fetch_def eval_defs)
  have u: "\<not> falsy_url (Some ''/profile'')"
    by (simp add: falsy_url_def)
  have miss: "Map_get (Some ''/profile'') (cache ?s) = None"
    "Map_get (Some ''/profile'') (inFlightMap ?s) = None"
    and len: "length (calls ?s) = 2"
    by (simp_all add: two_idle_hooks_def failed_to_fetch_def eval_defs)
  have out: "settled (calls (run [Refetch 0, Refetch 1, Settle 2 ?r] ?s) ! 2)
               = Some (Resolved (JStr ''ada''))"
    by (simp add: two_idle_hooks_def failed_to_fetch_def eval_defs)
  show ?thesis
    using immediate_gets_share_one_call [OF a b ua ub u ga gb imm miss, of ?r]
      a b miss len out
    by (auto simp: len)
qed


text \<open>
  C2. Whatever sequence of events has happened, the cache holds at most
  \<open>MAX_CACHE_SIZE\<close> (100) entries, each key once. When, after any such sequence, a
  pending GET call settles with a truthy body, the cache of the resulting state is: at
  capacity, the old cache without its first entry (the oldest in insertion order) with the
  new entry set; below capacity, the old cache with the new entry set. Reading the cache
  in \<^verbatim>\<open>fetchData\<close> leaves the entries and their order as they are, so the order is that
  of insertion, not of access.
\<close>

theorem cache_bounded_fifo:
  "Map_size (cache (run es init)) \<le> MAX_CACHE_SIZE
   \<and> distinct (map fst (cache (run es init)))
   \<and> (p < length (calls (run es init)) \<and> settled (calls (run es init) ! p) = None
        \<and> req_method (request (calls (run es init) ! p)) = ''GET''
        \<and> settle_outcome (run es init) (request (calls (run es init) ! p)) r = Resolved v
        \<and> truthy v
      \<longrightarrow> (MAX_CACHE_SIZE \<le> Map_size (cache (run es init)) \<longrightarrow>
             cache (run (es @ [Settle p r]) init)
               = Map_set (req_url (request (calls (run es init) ! p))) v (tl (cache (run es init))))
         \<and> (Map_size (cache (run es init)) < MAX_CACHE_SIZE \<longrightarrow>
             cache (run (es @ [Settle p r]) init)
               = Map_set (req_url (request (calls (run es init) ! p))) v (cache (run es init))))
   \<and> cache (fetchData h s) = cache s"
proof (intro conjI impI)
  show "Map_size (cache (run es init)) \<le> MAX_CACHE_SIZE"
    and d: "distinct (map fst (cache (run es init)))"
    using cache_ok_run [of es] by (simp_all add: cache_ok_def)
  show "cache (fetchData h s) = cache s" by simp
  assume a: "p < length (calls (run es init)) \<and> settled (calls (run es init) ! p) = None
        \<and> req_method (request (calls (run es init) ! p)) = ''GET''
        \<and> settle_outcome (run es init) (request (calls (run es init) ! p)) r = Resolved v
        \<and> truthy v"
  then have c: "cache (run (es @ [Settle p r]) init)
      = cache_commit (req_url (request (calls (run es init) ! p))) v (cache (run es init))"
    using cache_settle_pending [of p "run es init" r] by (simp add: run_append)
  {
    assume "MAX_CACHE_SIZE \<le> Map_size (cache (run es init))"
    then show "cache (run (es @ [Settle p r]) init)
               = Map_set (req_url (request (calls (run es init) ! p))) v (tl (cache (run es init)))"
      using c d by (simp add: cache_commit_full)
  }
  {
    assume "Map_size (cache (run es init)) < MAX_CACHE_SIZE"
    then show "cache (run (es @ [Settle p r]) init)
               = Map_set (req_url (request (calls (run es init) ! p))) v (cache (run es init))"
      using c by (simp add: cache_commit_room)
  }
qed

theorem cache_bounded_fifo_witness:
  "cache (run (fill_events 100 @ [Mount 100 (item_url 100) no_options]) init) = item_cache 100
   \<and> Map_size (item_cache 100) = MAX_CACHE_SIZE
   \<and> hd (item_cache 100) = (item_url 0, JBool True)
   \<and> settled (calls (run (fill_events 100 @ [Mount 100 (item_url 100) no_options]) init) ! 100) = None
   \<and> req_method (request (calls (run (fill_events 100 @ [Mount 100 (item_url 100) no_options]) init) ! 100))
       = ''GET''
   \<and> cache (run ((fill_events 100 @ [Mount 100 (item_url 100) no_options])
                  @ [Settle 100 item_response]) init)
       = tl (item_cache 100) @ [(item_url 100, JBool True)]
   \<and> Map_get (item_url 0)
         (cache (run ((fill_events 100 @ [Mount 100 (item_url 100) no_options])
                  @ [Settle 100 item_response]) init)) = None
   \<and> cache (run [Mount 0 (item_url 0) no_options] init) = []
   \<and> cache (run ([Mount 0 (item_url 0) no_options] @ [Settle 0 item_response]) init)
       = [(item_url 0, JBool True)]"
proof -
  define es where "es = fill_events 100 @ [Mount 100 (item_url 100) no_options]"
  define s0 where "s0 = run (fill_events 100) init"
  have f: "filled 100 s0"
    unfolding s0_def by (rule filled_run) (simp add: MAX_CACHE_SIZE_def)
  then have l: "length (calls s0) = 100" by (simp add: filled_def)
  have s: "run es init = step (Mount 100 (item_url 100) no_options) s0"
    by (simp add: es_def s0_def run_append del: step.simps)
  note m = filled_mount [OF f, folded s]
  have c: "cache (run es init) = item_cache 100" by (rule m(3))
  have size: "Map_size (item_cache 100) = MAX_CACHE_SIZE"
    by (simp add: Map_size_def item_cache_def MAX_CACHE_SIZE_def)
  have p: "100 < length (calls (run es init))" "settled (calls (run es init) ! 100) = None"
    "req_method (request (calls (run es init) ! 100)) = ''GET''"
    "req_url (request (calls (run es init) ! 100)) = item_url 100"
    "req_signal (request (calls (run es init) ! 100)) \<notin> aborted (run es init)"
    using l by (simp_all add: m(1) m(4) nth_append)
  then have out: "settle_outcome (run es init) (request (calls (run es init) ! 100)) item_response
      = Resolved (JBool True)"
    by (simp add: settle_outcome_def fetch_outcome_def item_response_def)
  have full: "cache (run (es @ [Settle 100 item_response]) init)
      = Map_set (item_url 100) (JBool True) (tl (item_cache 100))"
    using cache_bounded_fifo [where es = es and p = 100 and r = item_response and v = "JBool True"]
      p out size by (simp add: c)
  have ne: "item_cache 100 = (item_url 0, JBool True) # tl (item_cache 100)"
    by (simp add: item_cache_def upt_conv_Cons)
  have keys: "item_url 100 \<notin> fst ` set (tl (item_cache 100))"
    using item_url_fresh [of 100] by (subst (asm) ne) simp
  have hd: "hd (item_cache 100) = (item_url 0, JBool True)"
    by (subst ne) simp
  have d: "distinct (map fst (item_cache 100))"
    using cache_bounded_fifo [where es = es] by (simp add: c)
  then have old: "item_url 0 \<notin> fst ` set (tl (item_cache 100))"
    by (subst (asm) ne) (simp add: image_iff)
  have new: "item_url 0 \<noteq> item_url 100"
    using item_url_inj [of 0 100] by auto
  have full': "cache (run (es @ [Settle 100 item_response]) init)
      = tl (item_cache 100) @ [(item_url 100, JBool True)]"
    using full keys by (simp add: Map_set_absent)
  have gone: "Map_get (item_url 0) (cache (run (es @ [Settle 100 item_response]) init)) = None"
    unfolding full' using old new by (intro Map_get_absent) auto
  define e1 where "e1 = [Mount 0 (item_url 0) no_options]"
  have i0: "filled 0 init" using filled_run [of 0] by simp
  have s1: "run e1 init = step (Mount 0 (item_url 0) no_options) init"
    by (simp add: e1_def del: step.simps)
  note m0 = filled_mount [OF i0, folded s1]
  have c0: "cache (run e1 init) = []" using m0(3) by (simp add: item_cache_def)
  have p0: "0 < length (calls (run e1 init))" "settled (calls (run e1 init) ! 0) = None"
    "req_method (request (calls (run e1 init) ! 0)) = ''GET''"
    "req_url (request (calls (run e1 init) ! 0)) = item_url 0"
    "req_signal (request (calls (run e1 init) ! 0)) \<notin> aborted (run e1 init)"
    using i0 by (simp_all add: m0(1) m0(4) filled_def)
  then have out0: "settle_outcome (run e1 init) (request (calls (run e1 init) ! 0)) item_response
      = Resolved (JBool True)"
    by (simp add: settle_outcome_def fetch_outcome_def item_response_def)
  have room: "cache (run (e1 @ [Settle 0 item_response]) init) = [(item_url 0, JBool True)]"
    using cache_bounded_fifo [where es = e1 and p = 0 and r = item_response and v = "JBool True"]
      p0 out0 by (simp add: c0 Map_size_def MAX_CACHE_SIZE_def)
  show ?thesis
    using c size hd p(2,3) full' gone c0 room unfolding es_def e1_def by blast
qed

text \<open>
  C3. When a pending call settles by rejection: if the error's name is
  \<^verbatim>\<open>AbortError\<close>, the settlement leaves the \<open>error\<close> field of every hook as it was, the
  originator's and the attached ones' included; otherwise the originator and every
  attached hook have the error's message in their \<open>error\<close> field. A call whose signal
  was aborted rejects with an \<^verbatim>\<open>AbortError\<close>. A transport failure, a response that is
  not ok (with the status in the message) and a decode failure are all rejections
  carrying a message.
\<close>

theorem cancellation_never_surfaces:
  assumes "p < length (calls s)"
    and "settled (calls s ! p) = None"
    and "settle_outcome s (request (calls s ! p)) r = Rejected e"
  shows "(err_name e = ''AbortError'' \<longrightarrow>
            (\<forall>h. map_option error (hooks (step (Settle p r) s) h) = map_option error (hooks s h)))
       \<and> (err_name e \<noteq> ''AbortError'' \<longrightarrow>
            (\<forall>h. h = req_owner (request (calls s ! p)) \<or> h \<in> set (attached (calls s ! p)) \<longrightarrow>
               map_option error (hooks (step (Settle p r) s) h)
                 = map_option (\<lambda>k. Some (err_message e)) (hooks s h)))
       \<and> (req_signal rq \<in> aborted t \<longrightarrow>
            settle_outcome t rq r' = Rejected abort_error \<and> err_name abort_error = ''AbortError'')
       \<and> fetch_outcome (NetworkError e') = Rejected e'
       \<and> fetch_outcome (Response False st d)
           = Rejected (JsError ''Error'' (''HTTP error! status: '' @ string_of_nat st))
       \<and> fetch_outcome (Response True st (Inl e')) = Rejected e'"
proof -
  have abort: "map_option error (hooks (settle p r s) h) = map_option error (hooks s h)"
    if "err_name e = ''AbortError''" for h
    using assms that
    by (cases "hooks s h")
      (auto simp: hooks_settle Let_def error_originator_effect error_attached_effect)
  have fail: "map_option error (hooks (settle p r s) h)
                = map_option (\<lambda>k. Some (err_message e)) (hooks s h)"
    if "err_name e \<noteq> ''AbortError''"
      and "h = req_owner (request (calls s ! p)) \<or> h \<in> set (attached (calls s ! p))" for h
    using assms that
    by (cases "hooks s h")
      (auto simp: hooks_settle Let_def error_originator_effect error_attached_effect)
  show ?thesis
    using abort fail
    by (simp add: settle_outcome_def abort_error_def fetch_outcome_def)
qed

theorem cancellation_never_surfaces_witness:
  "0 < length (calls (run [Mount 0 (Some ''/a'') no_options, Mount 1 (Some ''/a'') no_options] init))
   \<and> settled (calls (run [Mount 0 (Some ''/a'') no_options, Mount 1 (Some ''/a'') no_options] init) ! 0) = None
   \<and> req_owner (request (calls (run [Mount 0 (Some ''/a'') no_options, Mount 1 (Some ''/a'') no_options] init) ! 0)) = 0
   \<and> attached (calls (run [Mount 0 (Some ''/a'') no_options, Mount 1 (Some ''/a'') no_options] init) ! 0) = [1]
   \<and> map_option error (hooks (run [Mount 0 (Some ''/a'') no_options, Mount 1 (Some ''/a'') no_options,
         Settle 0 (NetworkError abort_error)] init) 0) = Some None
   \<and> map_option error (hooks (run [Mount 0 (Some ''/a'') no_options, Mount 1 (Some ''/a'') no_options,
         Settle 0 (NetworkError abort_error)] init) 1) = Some None
   \<and> map_option error (hooks (run [Mount 0 (Some ''/a'') no_options, Mount 1 (Some ''/a'') no_options,
         Settle 0 (Response False 404 (Inr JNull))] init) 0) = Some (Some ''HTTP error! status: 404'')
   \<and> map_option error (hooks (run [Mount 0 (Some ''/a'') no_options, Mount 1 (Some ''/a'') no_options,
         Settle 0 (Response False 404 (Inr JNull))] init) 1) = Some (Some ''HTTP error! status: 404'')"
proof -
  let ?s = "run [Mount 0 (Some ''/a'') no_options, Mount 1 (Some ''/a'') no_options] init"
  let ?e = "JsError ''Error'' ''HTTP error! status: 404''"
  have pre: "0 < length (calls ?s)" "settled (calls ?s ! 0) = None"
    and who: "req_owner (request (calls ?s ! 0)) = 0" "attached (calls ?s ! 0) = [1]"
    and before: "map_option error (hooks ?s 0) = Some None" "map_option error (hooks ?s 1) = Some None"
    by (simp_all add: eval_defs)
  have o1: "settle_outcome ?s (request (calls ?s ! 0)) (NetworkError abort_error) = Rejected abort_error"
    by (simp add: settle_outcome_def fetch_outcome_def init_def eval_defs)
  have o2: "settle_outcome ?s (request (calls ?s ! 0)) (Response False 404 (Inr JNull)) = Rejected ?e"
    by (simp add: eval_defs string_of_nat.simps digit_char_def)
  have n1: "err_name abort_error = ''AbortError''" and n2: "err_name ?e \<noteq> ''AbortError''"
    and m2: "err_message ?e = ''HTTP error! status: 404''"
    by (simp_all add: abort_error_def)
  have r1: "run [Mount 0 (Some ''/a'') no_options, Mount 1 (Some ''/a'') no_options, Settle 0 r] init
              = step (Settle 0 r) ?s" for r
    by simp
  show ?thesis
    unfolding r1
    using cancellation_never_surfaces [OF pre o1] cancellation_never_surfaces [OF pre o2]
      pre who before n1 n2 m2
    by (simp only: ) auto
qed

text \<open>
  C4. When the network call of a GET request settles, by success, failure or
  cancellation, the registry has no entry for the request's URL afterwards, whatever
  hooks are attached to the call. So in every state the program reaches, an entry of the
  registry names a call that has not settled.
\<close>

theorem registry_entry_removed_on_settlement:
  "(p < length (calls s) \<and> settled (calls s ! p) = None
      \<and> req_method (request (calls s ! p)) = ''GET''
    \<longrightarrow> Map_get (req_url (request (calls s ! p))) (inFlightMap (step (Settle p r) s)) = None
        \<and> settled (calls (step (Settle p r) s) ! p) \<noteq> None)
   \<and> (Map_get u (inFlightMap (run es init)) = Some q
    \<longrightarrow> q < length (calls (run es init)) \<and> settled (calls (run es init) ! q) = None)"
proof (intro conjI impI)
  assume "Map_get u (inFlightMap (run es init)) = Some q"
  then have "(u, q) \<in> set (inFlightMap (run es init))" by (rule Map_get_in_set)
  with registry_ok_run [of es] have "entry_ok (calls (run es init)) (u, q)"
    by (simp add: registry_ok_def)
  then show "q < length (calls (run es init))" "settled (calls (run es init) ! q) = None"
    by (simp_all add: entry_ok_def)
qed (simp_all add: inFlightMap_settle calls_settle Map_get_delete)

theorem registry_entry_removed_on_settlement_witness:
  "(let s = run [Mount 0 (Some ''/a'') no_options, Mount 1 (Some ''/a'') no_options] init in
     0 < length (calls s) \<and> settled (calls s ! 0) = None
     \<and> req_method (request (calls s ! 0)) = ''GET''
     \<and> attached (calls s ! 0) = [1]
     \<and> Map_get (Some ''/a'') (inFlightMap s) = Some 0
     \<and> Map_get (req_url (request (calls s ! 0)))
           (inFlightMap (step (Settle 0 (NetworkError abort_error)) s)) = None
     \<and> settled (calls (step (Settle 0 (NetworkError abort_error)) s) ! 0) \<noteq> None)"
proof -
  let ?s = "run [Mount 0 (Some ''/a'') no_options, Mount 1 (Some ''/a'') no_options] init"
  have pre: "0 < length (calls ?s) \<and> settled (calls ?s ! 0) = None
      \<and> req_method (request (calls ?s ! 0)) = ''GET''
      \<and> attached (calls ?s ! 0) = [1]
      \<and> Map_get (Some ''/a'') (inFlightMap ?s) = Some 0"
    by (simp add: eval_defs)
  show ?thesis
    using pre
      registry_entry_removed_on_settlement [where s = ?s and p = 0
        and r = "NetworkError abort_error" and es = "[Mount 0 (Some ''/a'') no_options]"
        and u = "Some ''/a''" and q = 0]
    by (simp add: Let_def)
qed

text \<open>
  C5, as stated, fails on a run: a GET for \<^verbatim>\<open>/a\<close> has succeeded and is cached; a
  second component then mounts the hook for \<^verbatim>\<open>/a\<close> with \<^verbatim>\<open>debounce: 500\<close>. At the
  moment of the invocation, with no time passed and no timer set, the hook already has
  the cached data and \<open>isLoading = False\<close>: the cache check was not delayed.
\<close>

theorem cache_check_is_not_debounced:
  "now (run cached_then_debounced init) = 0
   \<and> map_option data (hooks (run cached_then_debounced init) 1) = Some (JNum 7)
   \<and> map_option isLoading (hooks (run cached_then_debounced init) 1) = Some False
   \<and> map_option timeoutRef (hooks (run cached_then_debounced init) 1) = Some None
   \<and> length (calls (run cached_then_debounced init)) = 1"
  by (simp add: cached_then_debounced_def eval_defs)

text \<open>
  C5, amended. A hook with a positive \<^verbatim>\<open>debounce\<close> below \<open>2^31\<close> milliseconds (the
  range in which \<^verbatim>\<open>setTimeout\<close> applies its delay as given) performs the cache check
  and the in-flight check at the moment of the invocation: on a cache hit it has the
  data at once and nothing else in the state changes, on a registry hit it attaches at
  once. Only when both miss (or the method is not GET) is the network call deferred:
  three invocations with any time between them and no timer coming due invoke no
  transport, cancel the two earlier timers and leave one timer, set at the third
  invocation with the full delay; fired before the delay has passed it does nothing,
  fired then it makes exactly one transport invocation.
\<close>

theorem debounce_defers_only_the_network_call:
  assumes h: "hooks s h = Some k" and u: "\<not> falsy_url (url k)"
    and d: "0 < so_debounce (stableOptions (options k))"
    and small: "so_debounce (stableOptions (options k)) < 2147483648"
  shows "(toUpperCase (so_method (stableOptions (options k))) = ''GET''
            \<and> Map_get (url k) (cache s) = Some v \<longrightarrow>
          hooks (step (Refetch h) s) h = Some (k\<lparr>data := v, isLoading := False, error := None\<rparr>)
          \<and> frame (step (Refetch h) s) = frame s)
       \<and> (toUpperCase (so_method (stableOptions (options k))) = ''GET''
            \<and> Map_get (url k) (cache s) = None \<and> Map_get (url k) (inFlightMap s) = Some p \<longrightarrow>
          step (Refetch h) s = attach h p s)
       \<and> ((toUpperCase (so_method (stableOptions (options k))) = ''GET'' \<longrightarrow>
             Map_get (url k) (cache s) = None \<and> Map_get (url k) (inFlightMap s) = None) \<longrightarrow>
          calls (run [Refetch h, Advance x, Refetch h, Advance y, Refetch h] s) = calls s
          \<and> now (run [Refetch h, Advance x, Refetch h, Advance y, Refetch h] s) = now s + x + y
          \<and> timers (run [Refetch h, Advance x, Refetch h, Advance y, Refetch h] s) =
              (timers (clearTimeout (timeoutRef k) s))
                (next_id s + 1 := None, next_id s + 3 := None,
                 next_id s + 5 := Some
                   \<lparr>set_at = now s + x + y,
                    delay = so_debounce (stableOptions (options k)),
                    callback =
                      \<lparr>req_url = url k,
                       req_method = fst (normalize_request (stableOptions (options k))),
                       req_headers = fst (snd (normalize_request (stableOptions (options k)))),
                       req_body = snd (snd (normalize_request (stableOptions (options k)))),
                       req_signal = next_id s + 4, req_owner = h\<rparr>\<rparr>)
          \<and> (\<forall>w < nat (so_debounce (stableOptions (options k))).
                run [Refetch h, Advance x, Refetch h, Advance y, Refetch h, Advance w,
                     TimerFire (next_id s + 5)] s
                = run [Refetch h, Advance x, Refetch h, Advance y, Refetch h, Advance w] s)
          \<and> calls (run [Refetch h, Advance x, Refetch h, Advance y, Refetch h,
                         Advance (nat (so_debounce (stableOptions (options k)))),
                         TimerFire (next_id s + 5)] s)
              = calls s @
                [\<lparr>request =
                    \<lparr>req_url = url k,
                     req_method = fst (normalize_request (stableOptions (options k))),
                     req_headers = fst (snd (normalize_request (stableOptions (options k)))),
                     req_body = snd (snd (normalize_request (stableOptions (options k)))),
                     req_signal = next_id s + 4, req_owner = h\<rparr>,
                   settled = None, attached = []\<rparr>])"
proof (intro conjI impI)
  let ?so = "stableOptions (options k)"
  let ?d = "so_debounce ?so"
  let ?get = "toUpperCase (so_method ?so) = ''GET''"
  {
    assume "?get \<and> Map_get (url k) (cache s) = Some v"
    then have "fetchData h s = setError h None (setIsLoading h False (setData h v s))"
      using fetchData_hit [OF h u] by simp
    then show "hooks (step (Refetch h) s) h = Some (k\<lparr>data := v, isLoading := False, error := None\<rparr>)"
      and "frame (step (Refetch h) s) = frame s"
      using h by (simp_all add: setter_defs)
  }
  {
    assume "?get \<and> Map_get (url k) (cache s) = None \<and> Map_get (url k) (inFlightMap s) = Some p"
    then show "step (Refetch h) s = attach h p s"
      using fetchData_attach [OF h u] by simp
  }
  assume miss: "?get \<longrightarrow> Map_get (url k) (cache s) = None \<and> Map_get (url k) (inFlightMap s) = None"
  obtain m hs b where nr: "normalize_request ?so = (m, hs, b)"
    by (cases "normalize_request ?so") auto
  have mget: "(m = ''GET'') = ?get"
    using fst_normalize_request [of ?so] by (auto simp: nr)
  let ?rq = "\<lambda>c. \<lparr>req_url = url k, req_method = m, req_headers = hs, req_body = b,
                     req_signal = c, req_owner = h\<rparr>"
  let ?n = "next_id s"
  have debounced: "fetchData h t =
      originate h (url k) m hs b ?d t"
    if "hooks t h = Some k'" "url k' = url k" "options k' = options k"
      "cache t = cache s" "inFlightMap t = inFlightMap s" for t k'
    using fetchData_originate [OF that(1), of m hs b] that u nr miss mget by simp
  define s1 where "s1 = fetchData h s"
  define s2 where "s2 = fetchData h (step (Advance x) s1)"
  define s3 where "s3 = fetchData h (step (Advance y) s2)"
  let ?k1 = "k\<lparr>controller := Some ?n, timeoutRef := Some (?n + 1)\<rparr>"
  let ?k2 = "?k1\<lparr>controller := Some (?n + 2), timeoutRef := Some (?n + 3)\<rparr>"
  have e1: "s1 = originate h (url k) m hs b ?d s"
    unfolding s1_def using debounced [OF h] by simp
  note o1 = originate_debounced [OF h d, of "url k" m hs b, folded e1]
  have h1: "hooks (step (Advance x) s1) h = Some ?k1"
    by (simp add: o1)
  have c1: "cache s1 = cache s"
    by (simp add: s1_def)
  have e2: "s2 = originate h (url k) m hs b ?d (step (Advance x) s1)"
    unfolding s2_def using debounced [OF h1] by (simp add: o1 c1)
  note o2 = originate_debounced [OF h1 d, of "url k" m hs b, folded e2]
  have h2: "hooks (step (Advance y) s2) h = Some ?k2"
    by (simp add: o2 o1)
  have c2: "cache s2 = cache s"
    by (simp add: s2_def s1_def)
  have e3: "s3 = originate h (url k) m hs b ?d (step (Advance y) s2)"
    unfolding s3_def using debounced [OF h2] by (simp add: o2 o1 c2)
  note o3 = originate_debounced [OF h2 d, of "url k" m hs b, folded e3]
  have run3: "run [Refetch h, Advance x, Refetch h, Advance y, Refetch h] s = s3"
    by (simp add: s3_def s2_def s1_def)
  have calls3: "calls s3 = calls s"
    by (simp add: o3 o2 o1)
  have now3: "now s3 = now s + x + y"
    by (simp add: o3 o2 o1)
  have timers3: "timers s3 =
      (timers (clearTimeout (timeoutRef k) s))
        (?n + 1 := None, ?n + 3 := None,
         ?n + 5 := Some \<lparr>set_at = now s + x + y, delay = ?d, callback = ?rq (?n + 4)\<rparr>)"
    by (auto simp: o3 o2 o1 timers_clearTimeout fun_eq_iff)
  show "calls (run [Refetch h, Advance x, Refetch h, Advance y, Refetch h] s) = calls s"
    unfolding run3 by (rule calls3)
  show "now (run [Refetch h, Advance x, Refetch h, Advance y, Refetch h] s) = now s + x + y"
    unfolding run3 by (rule now3)
  show "timers (run [Refetch h, Advance x, Refetch h, Advance y, Refetch h] s) =
      (timers (clearTimeout (timeoutRef k) s))
        (?n + 1 := None, ?n + 3 := None,
         ?n + 5 := Some \<lparr>set_at = now s + x + y, delay = ?d,
            callback = \<lparr>req_url = url k, req_method = fst (normalize_request ?so),
              req_headers = fst (snd (normalize_request ?so)),
              req_body = snd (snd (normalize_request ?so)),
              req_signal = ?n + 4, req_owner = h\<rparr>\<rparr>)"
    unfolding run3 by (simp add: timers3 nr)
  have tms: "timeout_ms ?d = nat ?d"
    using d small by (simp add: timeout_ms_small)
  have t3: "timers (step (Advance w) s3) (?n + 5)
      = Some \<lparr>set_at = now s + x + y, delay = ?d, callback = ?rq (?n + 4)\<rparr>" for w
    by (simp add: timers3)
  show "\<forall>w < nat ?d.
      run [Refetch h, Advance x, Refetch h, Advance y, Refetch h, Advance w, TimerFire (?n + 5)] s
      = run [Refetch h, Advance x, Refetch h, Advance y, Refetch h, Advance w] s"
  proof (intro allI impI)
    fix w assume w: "w < nat ?d"
    have "timer_fire (?n + 5) (step (Advance w) s3) = step (Advance w) s3"
      using timer_fire_early [OF t3 [of w]] w by (simp add: now3 tms)
    then show "run [Refetch h, Advance x, Refetch h, Advance y, Refetch h, Advance w, TimerFire (?n + 5)] s
      = run [Refetch h, Advance x, Refetch h, Advance y, Refetch h, Advance w] s"
      by (simp add: s3_def s2_def s1_def)
  qed
  have "calls (timer_fire (?n + 5) (step (Advance (nat ?d)) s3))
      = calls s @ [\<lparr>request = ?rq (?n + 4), settled = None, attached = []\<rparr>]"
    using timer_fire_due [OF t3 [of "nat ?d"]] by (simp add: now3 calls3 tms)
  then show "calls (run [Refetch h, Advance x, Refetch h, Advance y, Refetch h,
                         Advance (nat ?d), TimerFire (?n + 5)] s)
      = calls s @
        [\<lparr>request = \<lparr>req_url = url k, req_method = fst (normalize_request ?so),
              req_headers = fst (snd (normalize_request ?so)),
              req_body = snd (snd (normalize_request ?so)),
              req_signal = ?n + 4, req_owner = h\<rparr>,
           settled = None, attached = []\<rparr>]"
    by (simp add: s3_def s2_def s1_def nr)
qed

theorem debounce_defers_only_the_network_call_witness:
  "(\<exists>k. hooks (run cached_then_debounced init) 1 = Some k \<and> \<not> falsy_url (url k)
        \<and> 0 < so_debounce (stableOptions (options k))
        \<and> so_debounce (stableOptions (options k)) < 2147483648
        \<and> toUpperCase (so_method (stableOptions (options k))) = ''GET''
        \<and> Map_get (url k) (cache (run cached_then_debounced init)) = Some (JNum 7)
        \<and> hooks (step (Refetch 1) (run cached_then_debounced init)) 1
             = Some (k\<lparr>data := JNum 7, isLoading := False, error := None\<rparr>)
        \<and> frame (step (Refetch 1) (run cached_then_debounced init))
             = frame (run cached_then_debounced init))
   \<and> (\<exists>k. hooks (run attached_debounced init) 1 = Some k \<and> \<not> falsy_url (url k)
        \<and> 0 < so_debounce (stableOptions (options k))
        \<and> so_debounce (stableOptions (options k)) < 2147483648
        \<and> toUpperCase (so_method (stableOptions (options k))) = ''GET''
        \<and> Map_get (url k) (cache (run attached_debounced init)) = None
        \<and> Map_get (url k) (inFlightMap (run attached_debounced init)) = Some 0
        \<and> step (Refetch 1) (run attached_debounced init)
             = attach 1 0 (run attached_debounced init))
   \<and> (\<exists>k. hooks (run [Mount 0 (Some ''/q'') debounced_options] init) 0 = Some k
        \<and> \<not> falsy_url (url k)
        \<and> 0 < so_debounce (stableOptions (options k))
        \<and> so_debounce (stableOptions (options k)) < 2147483648
        \<and> Map_get (url k) (cache (run [Mount 0 (Some ''/q'') debounced_options] init)) = None
        \<and> Map_get (url k) (inFlightMap (run [Mount 0 (Some ''/q'') debounced_options] init)) = None
        \<and> calls (run [Refetch 0, Advance 10, Refetch 0, Advance 20, Refetch 0]
                  (run [Mount 0 (Some ''/q'') debounced_options] init)) = []
        \<and> length (calls (run [Refetch 0, Advance 10, Refetch 0, Advance 20, Refetch 0, Advance 100,
                    TimerFire 7] (run [Mount 0 (Some ''/q'') debounced_options] init))) = 1)"
proof -
  define s1 where "s1 = run cached_then_debounced init"
  define s2 where "s2 = run attached_debounced init"
  define s3 where "s3 = run [Mount 0 (Some ''/q'') debounced_options] init"
  obtain k1 where h1: "hooks s1 1 = Some k1" and u1: "\<not> falsy_url (url k1)"
    and d1: "0 < so_debounce (stableOptions (options k1))"
    and b1: "so_debounce (stableOptions (options k1)) < 2147483648"
    and g1: "toUpperCase (so_method (stableOptions (options k1))) = ''GET''"
    and c1: "Map_get (url k1) (cache s1) = Some (JNum 7)"
    by (simp add: s1_def cached_then_debounced_def eval_defs)
  obtain k2 where h2: "hooks s2 1 = Some k2" and u2: "\<not> falsy_url (url k2)"
    and d2: "0 < so_debounce (stableOptions (options k2))"
    and b2: "so_debounce (stableOptions (options k2)) < 2147483648"
    and g2: "toUpperCase (so_method (stableOptions (options k2))) = ''GET''"
    and c2: "Map_get (url k2) (cache s2) = None"
    and r2: "Map_get (url k2) (inFlightMap s2) = Some 0"
    by (simp add: s2_def attached_debounced_def eval_defs)
  obtain k3 where h3: "hooks s3 0 = Some k3" and u3: "\<not> falsy_url (url k3)"
    and d3: "0 < so_debounce (stableOptions (options k3))"
    and b3: "so_debounce (stableOptions (options k3)) < 2147483648"
    and dv: "nat (so_debounce (stableOptions (options k3))) = 100"
    and c3: "Map_get (url k3) (cache s3) = None"
    and r3: "Map_get (url k3) (inFlightMap s3) = None"
    and n3: "next_id s3 + 5 = 7" and l3: "calls s3 = []"
    by (simp add: s3_def debounced_options_def eval_defs)
  note t1 = debounce_defers_only_the_network_call [OF h1 u1 d1 b1, of "JNum 7"]
  note t2 = debounce_defers_only_the_network_call [OF h2 u2 d2 b2, where p = 0]
  note t3 = debounce_defers_only_the_network_call [OF h3 u3 d3 b3, where x = 10 and y = 20,
      unfolded dv n3 l3]
  have a1: "hooks (step (Refetch 1) s1) 1 = Some (k1\<lparr>data := JNum 7, isLoading := False, error := None\<rparr>)
      \<and> frame (step (Refetch 1) s1) = frame s1"
    using t1 g1 c1 by blast
  have a2: "step (Refetch 1) s2 = attach 1 0 s2"
    using t2 g2 c2 r2 by blast
  have a3: "calls (run [Refetch 0, Advance 10, Refetch 0, Advance 20, Refetch 0] s3) = []
      \<and> length (calls (run [Refetch 0, Advance 10, Refetch 0, Advance 20, Refetch 0, Advance 100,
                    TimerFire 7] s3)) = 1"
  proof -
    from t3 c3 r3
    have "calls (run [Refetch 0, Advance 10, Refetch 0, Advance 20, Refetch 0] s3) = []"
      and "\<exists>c. calls (run [Refetch 0, Advance 10, Refetch 0, Advance 20, Refetch 0, Advance 100,
                    TimerFire 7] s3) = [] @ [c]"
      by blast+
    then show ?thesis by auto
  qed
  show ?thesis
    using h1 u1 d1 b1 g1 c1 a1 h2 u2 d2 b2 g2 c2 r2 a2 h3 u3 d3 b3 c3 r3 a3
    unfolding s1_def s2_def s3_def by blast
qed

text \<open>
  C6 does not hold of the code: \<^verbatim>\<open>didSetInFlight\<close> is set when a hook registers a call
  and never reset. Hook 0 originates a GET for \<^verbatim>\<open>/a\<close>, which fails and so is neither
  cached nor left in the registry; hook 1 then originates a GET for \<^verbatim>\<open>/a\<close> and
  registers its call, call 1. When hook 0 unmounts, its cleanup deletes the registry
  entry for \<^verbatim>\<open>/a\<close>, which hook 1 created and whose call is still pending.
\<close>

theorem teardown_deletes_foreign_entry:
  "Map_get (Some ''/a'') (inFlightMap (run (butlast foreign_entry_deleted) init)) = Some 1
   \<and> req_owner (request (calls (run (butlast foreign_entry_deleted) init) ! 1)) = 1
   \<and> settled (calls (run (butlast foreign_entry_deleted) init) ! 0) \<noteq> None
   \<and> req_owner (request (calls (run foreign_entry_deleted init) ! 1)) = 1
   \<and> settled (calls (run foreign_entry_deleted init) ! 1) = None
   \<and> Map_get (Some ''/a'') (inFlightMap (run foreign_entry_deleted init)) = None"
  by (simp add: foreign_entry_deleted_def failed_to_fetch_def eval_defs)




text \<open>
  C8. An event gives the cache a value for a key that it did not hold for that key
  before only when the event is the settlement of a pending call whose method is GET,
  whose URL is that key and which resolved to that value, a truthy one (the test of
  line 95 is JavaScript truthiness: \<^verbatim>\<open>null\<close>, \<^verbatim>\<open>false\<close>, \<^verbatim>\<open>0\<close> and the empty string
  are not cached, every object and array is); the cache after it is the write of lines
  94-103, with its eviction rule. For a method that is not GET, \<^verbatim>\<open>fetchData\<close>,
  \<^verbatim>\<open>runFetch\<close> and the settlement neither read nor change the cache and the registry:
  run on any other contents of the two maps they do the same and leave those contents.
\<close>

theorem cache_holds_only_successful_gets:
  "(Map_get u (cache (step e s)) = Some v \<and> Map_get u (cache s) \<noteq> Some v \<longrightarrow>
      (\<exists>p r. e = Settle p r \<and> p < length (calls s) \<and> settled (calls s ! p) = None
          \<and> req_method (request (calls s ! p)) = ''GET'' \<and> req_url (request (calls s ! p)) = u
          \<and> settle_outcome s (request (calls s ! p)) r = Resolved v \<and> truthy v
          \<and> cache (step e s) = cache_commit u v (cache s)))
   \<and> (hooks s h = Some k \<and> toUpperCase (so_method (stableOptions (options k))) \<noteq> ''GET'' \<longrightarrow>
        fetchData h (s\<lparr>cache := c, inFlightMap := f\<rparr>)
          = (fetchData h s)\<lparr>cache := c, inFlightMap := f\<rparr>)
   \<and> (req_method rq \<noteq> ''GET'' \<longrightarrow>
        runFetch rq (s\<lparr>cache := c, inFlightMap := f\<rparr>)
          = (runFetch rq s)\<lparr>cache := c, inFlightMap := f\<rparr>)
   \<and> (q < length (calls s) \<and> req_method (request (calls s ! q)) \<noteq> ''GET'' \<longrightarrow>
        settle q r' (s\<lparr>cache := c, inFlightMap := f\<rparr>)
          = (settle q r' s)\<lparr>cache := c, inFlightMap := f\<rparr>)"
proof (intro conjI impI)
  assume "Map_get u (cache (step e s)) = Some v \<and> Map_get u (cache s) \<noteq> Some v"
  then show "\<exists>p r. e = Settle p r \<and> p < length (calls s) \<and> settled (calls s ! p) = None
          \<and> req_method (request (calls s ! p)) = ''GET'' \<and> req_url (request (calls s ! p)) = u
          \<and> settle_outcome s (request (calls s ! p)) r = Resolved v \<and> truthy v
          \<and> cache (step e s) = cache_commit u v (cache s)"
    using cache_step_cases by blast
next
  assume "hooks s h = Some k \<and> toUpperCase (so_method (stableOptions (options k))) \<noteq> ''GET''"
  then show "fetchData h (s\<lparr>cache := c, inFlightMap := f\<rparr>)
          = (fetchData h s)\<lparr>cache := c, inFlightMap := f\<rparr>"
    using fetchData_maps by blast
next
  assume "req_method rq \<noteq> ''GET''"
  then show "runFetch rq (s\<lparr>cache := c, inFlightMap := f\<rparr>)
          = (runFetch rq s)\<lparr>cache := c, inFlightMap := f\<rparr>"
    by (rule runFetch_maps)
next
  assume "q < length (calls s) \<and> req_method (request (calls s ! q)) \<noteq> ''GET''"
  then show "settle q r' (s\<lparr>cache := c, inFlightMap := f\<rparr>)
          = (settle q r' s)\<lparr>cache := c, inFlightMap := f\<rparr>"
    using settle_maps by blast
qed

theorem cache_holds_only_successful_gets_witness:
  "Map_get (Some ''/a'') (cache (step (Settle 0 (Response True 200 (Inr (JNum 7))))
       (run [Mount 0 (Some ''/a'') no_options] init))) = Some (JNum 7)
   \<and> Map_get (Some ''/a'') (cache (run [Mount 0 (Some ''/a'') no_options] init)) \<noteq> Some (JNum 7)
   \<and> cache (step (Settle 0 (Response True 200 (Inr (JNum 7))))
         (run [Mount 0 (Some ''/a'') no_options] init))
       = cache_commit (Some ''/a'') (JNum 7) (cache (run [Mount 0 (Some ''/a'') no_options] init))
   \<and> (\<exists>k. hooks (run [Mount 0 (Some ''/users'') post_options] init) 0 = Some k
         \<and> toUpperCase (so_method (stableOptions (options k))) \<noteq> ''GET'')
   \<and> fetchData 0 (run [Mount 0 (Some ''/users'') post_options] init
         \<lparr>cache := full_cache, inFlightMap := [(Some ''/users'', 0)]\<rparr>)
       = (fetchData 0 (run [Mount 0 (Some ''/users'') post_options] init))
           \<lparr>cache := full_cache, inFlightMap := [(Some ''/users'', 0)]\<rparr>
   \<and> 0 < length (calls (run [Mount 0 (Some ''/users'') post_options] init))
   \<and> req_method (request (calls (run [Mount 0 (Some ''/users'') post_options] init) ! 0)) \<noteq> ''GET''
   \<and> settle 0 (Response True 201 (Inr (JBool True)))
         (run [Mount 0 (Some ''/users'') post_options] init
           \<lparr>cache := full_cache, inFlightMap := [(Some ''/users'', 0)]\<rparr>)
       = (settle 0 (Response True 201 (Inr (JBool True)))
           (run [Mount 0 (Some ''/users'') post_options] init))
           \<lparr>cache := full_cache, inFlightMap := [(Some ''/users'', 0)]\<rparr>"
proof -
  define s1 where "s1 = run [Mount 0 (Some ''/a'') no_options] init"
  define s2 where "s2 = run [Mount 0 (Some ''/users'') post_options] init"
  define e where "e = Settle 0 (Response True 200 (Inr (JNum 7)))"
  have new: "Map_get (Some ''/a'') (cache (step e s1)) = Some (JNum 7)"
    and old: "Map_get (Some ''/a'') (cache s1) \<noteq> Some (JNum 7)"
    by (simp_all add: s1_def e_def eval_defs)
  obtain k where k: "hooks s2 0 = Some k"
    and m: "toUpperCase (so_method (stableOptions (options k))) \<noteq> ''GET''"
    by (simp add: s2_def post_options_def eval_defs)
  have c: "0 < length (calls s2)" "req_method (request (calls s2 ! 0)) \<noteq> ''GET''"
    by (simp_all add: s2_def post_options_def eval_defs)
  note t1 = cache_holds_only_successful_gets [where s = s1 and e = e and u = "Some ''/a''"
      and v = "JNum 7"]
  note t2 = cache_holds_only_successful_gets [where s = s2 and h = 0 and k = k and q = 0
      and c = full_cache and f = "[(Some ''/users'', 0)]" and r' = "Response True 201 (Inr (JBool True))"]
  have a1: "cache (step e s1) = cache_commit (Some ''/a'') (JNum 7) (cache s1)"
    using t1 new old by blast
  have a2: "fetchData 0 (s2\<lparr>cache := full_cache, inFlightMap := [(Some ''/users'', 0)]\<rparr>)
       = (fetchData 0 s2)\<lparr>cache := full_cache, inFlightMap := [(Some ''/users'', 0)]\<rparr>"
    using t2 k m by blast
  have a3: "settle 0 (Response True 201 (Inr (JBool True)))
         (s2\<lparr>cache := full_cache, inFlightMap := [(Some ''/users'', 0)]\<rparr>)
       = (settle 0 (Response True 201 (Inr (JBool True))) s2)
           \<lparr>cache := full_cache, inFlightMap := [(Some ''/users'', 0)]\<rparr>"
    using t2 c by blast
  show ?thesis
    using new old a1 k m a2 c a3 unfolding s1_def s2_def e_def by blast
qed

text \<open>
  C9, as stated, fails on a run: the hook is mounted with the only option
  \<^verbatim>\<open>debounceMs: 500\<close>. The transport is invoked at once, at time 0, and no timer is
  set: the key the hook reads is \<^verbatim>\<open>debounce\<close>.
\<close>

theorem unread_debounceMs_key:
  "length (calls (run [Mount 0 (Some ''/search'')
       (no_options\<lparr>opt_other := [(''debounceMs'', JNum 500)]\<rparr>)] init)) = 1
   \<and> now (run [Mount 0 (Some ''/search'')
       (no_options\<lparr>opt_other := [(''debounceMs'', JNum 500)]\<rparr>)] init) = 0
   \<and> map_option timeoutRef (hooks (run [Mount 0 (Some ''/search'')
       (no_options\<lparr>opt_other := [(''debounceMs'', JNum 500)]\<rparr>)] init) 0) = Some None"
  by (simp add: eval_defs)

text \<open>
  C9, amended. The options read are \<^verbatim>\<open>method\<close>, \<^verbatim>\<open>headers\<close>, \<^verbatim>\<open>body\<close> and
  \<^verbatim>\<open>debounce\<close>, with the defaults \<^verbatim>\<open>"GET"\<close>, no headers, no body and 0; every other
  key is ignored. A positive \<^verbatim>\<open>debounce\<close> makes an execution that misses the cache and
  the registry set a timer for that delay and invoke no transport yet. With every option
  omitted, such an execution invokes the transport at once, with method GET, no headers
  and no body.
\<close>

theorem recognized_option_keys:
  "stableOptions \<lparr>opt_method = None, opt_headers = None, opt_body = None, opt_debounce = None,
                  opt_other = other\<rparr>
     = \<lparr>so_method = ''GET'', so_headers = [], so_body = JNull, so_debounce = 0\<rparr>
   \<and> stableOptions (opts\<lparr>opt_other := other\<rparr>) = stableOptions opts
   \<and> (hooks s h = Some k \<and> \<not> falsy_url (url k) \<and> opt_debounce (options k) = Some d \<and> 0 < d
        \<and> (toUpperCase (so_method (stableOptions (options k))) = ''GET'' \<longrightarrow>
              Map_get (url k) (cache s) = None \<and> Map_get (url k) (inFlightMap s) = None)
      \<longrightarrow> calls (step (Refetch h) s) = calls s
        \<and> map_option timeoutRef (hooks (step (Refetch h) s) h) = Some (Some (next_id s + 1))
        \<and> map_option set_at (timers (step (Refetch h) s) (next_id s + 1)) = Some (now s)
        \<and> map_option delay (timers (step (Refetch h) s) (next_id s + 1)) = Some d)
   \<and> (hooks s h = Some k \<and> \<not> falsy_url (url k)
        \<and> options k = \<lparr>opt_method = None, opt_headers = None, opt_body = None,
                        opt_debounce = None, opt_other = other\<rparr>
        \<and> Map_get (url k) (cache s) = None \<and> Map_get (url k) (inFlightMap s) = None
      \<longrightarrow> calls (step (Refetch h) s) =
            calls s @ [\<lparr>request = \<lparr>req_url = url k, req_method = ''GET'', req_headers = [],
                                    req_body = None, req_signal = next_id s, req_owner = h\<rparr>,
                        settled = None, attached = []\<rparr>])"
proof (intro conjI impI)
  show "stableOptions \<lparr>opt_method = None, opt_headers = None, opt_body = None, opt_debounce = None,
                  opt_other = other\<rparr>
     = \<lparr>so_method = ''GET'', so_headers = [], so_body = JNull, so_debounce = 0\<rparr>"
    by (simp add: stableOptions_def)
  show "stableOptions (opts\<lparr>opt_other := other\<rparr>) = stableOptions opts"
    by (simp add: stableOptions_def)
next
  assume a: "hooks s h = Some k \<and> \<not> falsy_url (url k) \<and> opt_debounce (options k) = Some d \<and> 0 < d
        \<and> (toUpperCase (so_method (stableOptions (options k))) = ''GET'' \<longrightarrow>
              Map_get (url k) (cache s) = None \<and> Map_get (url k) (inFlightMap s) = None)"
  then have h: "hooks s h = Some k" and d: "so_debounce (stableOptions (options k)) = d" "0 < d"
    by (simp_all add: stableOptions_def)
  obtain m hs b where nr: "normalize_request (stableOptions (options k)) = (m, hs, b)"
    by (cases "normalize_request (stableOptions (options k))") auto
  have "(m = ''GET'') = (toUpperCase (so_method (stableOptions (options k))) = ''GET'')"
    using fst_normalize_request [of "stableOptions (options k)"] by (auto simp: nr)
  with a have f: "fetchData h s = originate h (url k) m hs b d s"
    using fetchData_originate [OF h _ nr] d by simp
  note o = originate_debounced [OF h d(2), of "url k" m hs b]
  show "calls (step (Refetch h) s) = calls s"
    and "map_option timeoutRef (hooks (step (Refetch h) s) h) = Some (Some (next_id s + 1))"
    and "map_option set_at (timers (step (Refetch h) s) (next_id s + 1)) = Some (now s)"
    and "map_option delay (timers (step (Refetch h) s) (next_id s + 1)) = Some d"
    by (simp_all add: f o)
next
  assume a: "hooks s h = Some k \<and> \<not> falsy_url (url k)
        \<and> options k = \<lparr>opt_method = None, opt_headers = None, opt_body = None,
                        opt_debounce = None, opt_other = other\<rparr>
        \<and> Map_get (url k) (cache s) = None \<and> Map_get (url k) (inFlightMap s) = None"
  then have h: "hooks s h = Some k" and u: "\<not> falsy_url (url k)"
    and miss: "Map_get (url k) (cache s) = None" "Map_get (url k) (inFlightMap s) = None"
    and so: "stableOptions (options k)
               = \<lparr>so_method = ''GET'', so_headers = [], so_body = JNull, so_debounce = 0\<rparr>"
    by (simp_all add: stableOptions_def)
  have nr: "normalize_request (stableOptions (options k)) = (''GET'', [], None)"
    by (simp add: so normalize_request_def toUpperCase_def upper_char_def)
  have dz: "so_debounce (stableOptions (options k)) = 0"
    by (simp add: so)
  have f: "fetchData h s = originate h (url k) ''GET'' [] None 0 s"
    using fetchData_originate [OF h u nr, unfolded dz] miss by simp
  show "calls (step (Refetch h) s) =
            calls s @ [\<lparr>request = \<lparr>req_url = url k, req_method = ''GET'', req_headers = [],
                                    req_body = None, req_signal = next_id s, req_owner = h\<rparr>,
                        settled = None, attached = []\<rparr>]"
    using originate_immediate(1) [OF h, of 0 "url k" "''GET''" "[]" None] by (simp add: f)
qed

theorem recognized_option_keys_witness:
  "(\<exists>k. hooks (run [Mount 0 (Some ''/q'') debounced_options] init) 0 = Some k
        \<and> \<not> falsy_url (url k) \<and> opt_debounce (options k) = Some 100 \<and> (0::int) < 100
        \<and> Map_get (url k) (cache (run [Mount 0 (Some ''/q'') debounced_options] init)) = None
        \<and> Map_get (url k) (inFlightMap (run [Mount 0 (Some ''/q'') debounced_options] init)) = None
        \<and> calls (step (Refetch 0) (run [Mount 0 (Some ''/q'') debounced_options] init)) = []
        \<and> map_option delay (timers (step (Refetch 0)
              (run [Mount 0 (Some ''/q'') debounced_options] init)) 3) = Some 100)
   \<and> (\<exists>k. hooks (run two_idle_hooks init) 0 = Some k \<and> \<not> falsy_url (url k)
        \<and> options k = no_options
        \<and> Map_get (url k) (cache (run two_idle_hooks init)) = None
        \<and> Map_get (url k) (inFlightMap (run two_idle_hooks init)) = None
        \<and> length (calls (step (Refetch 0) (run two_idle_hooks init))) = 3
        \<and> req_method (request (calls (step (Refetch 0) (run two_idle_hooks init)) ! 2)) = ''GET'')"
proof -
  define s1 where "s1 = run [Mount 0 (Some ''/q'') debounced_options] init"
  define s2 where "s2 = run two_idle_hooks init"
  obtain k1 where h1: "hooks s1 0 = Some k1" and u1: "\<not> falsy_url (url k1)"
    and d1: "opt_debounce (options k1) = Some 100"
    and c1: "Map_get (url k1) (cache s1) = None"
    and r1: "Map_get (url k1) (inFlightMap s1) = None"
    and n1: "next_id s1 + 1 = 3" "calls s1 = []"
    by (simp add: s1_def debounced_options_def eval_defs)
  obtain k2 where h2: "hooks s2 0 = Some k2" and u2: "\<not> falsy_url (url k2)"
    and o2: "options k2 = no_options"
    and c2: "Map_get (url k2) (cache s2) = None"
    and r2: "Map_get (url k2) (inFlightMap s2) = None"
    and n2: "length (calls s2) = 2"
    by (simp add: s2_def two_idle_hooks_def failed_to_fetch_def eval_defs)
  note t1 = recognized_option_keys [where s = s1 and h = 0 and k = k1 and d = 100,
      unfolded n1]
  note t2 = recognized_option_keys [where s = s2 and h = 0 and k = k2 and other = "[]",
      folded no_options_def]
  have a1: "calls (step (Refetch 0) s1) = []
      \<and> map_option delay (timers (step (Refetch 0) s1) 3) = Some 100"
    using t1 h1 u1 d1 c1 r1 by (simp del: step.simps)
  have "\<exists>rq. calls (step (Refetch 0) s2)
           = calls s2 @ [\<lparr>request = rq\<lparr>req_method := ''GET''\<rparr>, settled = None, attached = []\<rparr>]"
    using t2 h2 u2 o2 c2 r2 by (metis request.simps(7) request.update_convs(2))
  then have a2: "length (calls (step (Refetch 0) s2)) = 3
      \<and> req_method (request (calls (step (Refetch 0) s2) ! 2)) = ''GET''"
    using n2 by (auto simp: nth_append)
  show ?thesis
    using h1 u1 d1 c1 r1 a1 h2 u2 o2 c2 r2 a2
    unfolding s1_def s2_def by auto
qed

text \<open>
  C10. With a falsy URL (absent or empty), \<^verbatim>\<open>refetch\<close> changes nothing in the state,
  and mounting only creates the hook in its initial state. Such a hook, mounted when no
  call or timer refers to it, has \<open>data = null\<close>, \<open>error = null\<close> and
  \<open>isLoading = true\<close> after every sequence of events that does not give it a URL that
  is not falsy, and no transport invocation is its own.
\<close>

theorem falsy_url_stays_initial:
  "(hooks s h = Some k \<and> falsy_url (url k) \<longrightarrow> step (Refetch h) s = s)
   \<and> (hooks s h = None \<and> falsy_url u \<longrightarrow>
        step (Mount h u opts) s = s\<lparr>hooks := (hooks s)(h := Some (initial_hook u opts))\<rparr>)
   \<and> (hooks s h = None \<and> unreferenced h s \<and> falsy_url u
        \<and> (\<forall>e \<in> set es. keeps_url_falsy h e) \<longrightarrow>
        map_option data (hooks (run (Mount h u opts # es) s) h) = Some JNull
        \<and> map_option error (hooks (run (Mount h u opts # es) s) h) = Some None
        \<and> map_option isLoading (hooks (run (Mount h u opts # es) s) h) = Some True
        \<and> (\<forall>c \<in> set (calls (run (Mount h u opts # es) s)). req_owner (request c) \<noteq> h))"
proof (intro conjI impI)
  assume "hooks s h = Some k \<and> falsy_url (url k)"
  then show "step (Refetch h) s = s" by (simp add: fetchData_falsy)
next
  assume "hooks s h = None \<and> falsy_url u"
  then show "step (Mount h u opts) s = s\<lparr>hooks := (hooks s)(h := Some (initial_hook u opts))\<rparr>"
    by (simp add: fetchData_def initial_hook_def)
next
  assume a: "hooks s h = None \<and> unreferenced h s \<and> falsy_url u
        \<and> (\<forall>e \<in> set es. keeps_url_falsy h e)"
  let ?s0 = "s\<lparr>hooks := (hooks s)(h := Some (initial_hook u opts))\<rparr>"
  from a have m: "step (Mount h u opts) s = ?s0"
    by (simp add: fetchData_def initial_hook_def)
  from a have "still_initial h ?s0"
    by (simp add: still_initial_def initial_hook_def)
  with a have fin: "still_initial h (run (Mount h u opts # es) s)"
    using still_initial_run [of h ?s0 es] m by simp
  then show "map_option data (hooks (run (Mount h u opts # es) s) h) = Some JNull"
    and "map_option error (hooks (run (Mount h u opts # es) s) h) = Some None"
    and "map_option isLoading (hooks (run (Mount h u opts # es) s) h) = Some True"
    and "\<forall>c \<in> set (calls (run (Mount h u opts # es) s)). req_owner (request c) \<noteq> h"
    by (auto simp: still_initial_def unreferenced_def simp del: run.simps)
qed

theorem falsy_url_stays_initial_witness:
  "hooks (run [Mount 0 (Some ''/a'') no_options] init) 1 = None
   \<and> unreferenced 1 (run [Mount 0 (Some ''/a'') no_options] init)
   \<and> falsy_url (Some '''') \<and> falsy_url None
   \<and> keeps_url_falsy 1 (Refetch 1) \<and> keeps_url_falsy 1 (Advance 5)
   \<and> keeps_url_falsy 1 (Update 1 None no_options)
   \<and> keeps_url_falsy 1 (Settle 0 (Response True 200 (Inr (JNum 7))))
   \<and> keeps_url_falsy 1 (Unmount 1)
   \<and> map_option data (hooks (run [Mount 1 (Some '''') no_options, Refetch 1, Advance 5,
         Update 1 None no_options, Settle 0 (Response True 200 (Inr (JNum 7))), Unmount 1]
         (run [Mount 0 (Some ''/a'') no_options] init)) 1) = Some JNull
   \<and> map_option error (hooks (run [Mount 1 (Some '''') no_options, Refetch 1, Advance 5,
         Update 1 None no_options, Settle 0 (Response True 200 (Inr (JNum 7))), Unmount 1]
         (run [Mount 0 (Some ''/a'') no_options] init)) 1) = Some None
   \<and> map_option isLoading (hooks (run [Mount 1 (Some '''') no_options, Refetch 1, Advance 5,
         Update 1 None no_options, Settle 0 (Response True 200 (Inr (JNum 7))), Unmount 1]
         (run [Mount 0 (Some ''/a'') no_options] init)) 1) = Some True"
proof -
  define s where "s = run [Mount 0 (Some ''/a'') no_options] init"
  define es where "es = [Refetch 1, Advance 5, Update 1 None no_options,
      Settle 0 (Response True 200 (Inr (JNum 7))), Unmount 1]"
  have h: "hooks s 1 = None" and un: "unreferenced 1 s"
    by (simp_all add: s_def unreferenced_def eval_defs)
  have f: "falsy_url (Some '''')" "falsy_url None"
    by (simp_all add: falsy_url_def)
  have ks: "keeps_url_falsy 1 (Refetch 1)" "keeps_url_falsy 1 (Advance 5)"
    "keeps_url_falsy 1 (Update 1 None no_options)"
    "keeps_url_falsy 1 (Settle 0 (Response True 200 (Inr (JNum 7))))"
    "keeps_url_falsy 1 (Unmount 1)"
    by (simp_all add: keeps_url_falsy_def falsy_url_def)
  then have all: "\<forall>e \<in> set es. keeps_url_falsy 1 e"
    by (simp add: es_def)
  from falsy_url_stays_initial [where s = s and h = 1 and u = "Some ''''" and es = es
      and opts = no_options] h un f all
  have "map_option data (hooks (run (Mount 1 (Some '''') no_options # es) s) 1) = Some JNull
      \<and> map_option error (hooks (run (Mount 1 (Some '''') no_options # es) s) 1) = Some None
      \<and> map_option isLoading (hooks (run (Mount 1 (Some '''') no_options # es) s) 1) = Some True"
    by blast
  then show ?thesis
    using h un f ks unfolding s_def es_def by blast
qed

end
